theory Spec2Isabelle
  imports Main "HOL-Library.Word" "HOL-Library.Signed_Division"
begin

unbundle bit_operations_syntax

section \<open>Data model\<close>

type_synonym byte = "8 word"
type_synonym bytes = "byte list"

text \<open>
  Go errors as values. The four sentinel errors of package crypto keep their names.
  \<open>Wrapped ctx e\<close> is \<^verbatim>\<open>fmt.Errorf\<close> with the verb \<^verbatim>\<open>%w\<close>: the
  error \<open>e\<close> with the added text \<open>ctx\<close>. The remaining constructors are the
  \<^verbatim>\<open>fmt.Errorf\<close> messages without a wrapped error, with the number they print.
  \<open>GoPanic\<close> is a run-time panic (slice bounds, negative capacity).
\<close>

datatype error =
    ErrPacketTooShort
  | ErrDecryptionFailed
  | ErrInvalidKey
  | ErrAuthenticationFail
  | KeySizeError nat
  | NonceSizeError nat
  | TagSizeError nat
  | CipherError
  | CMACError
  | Wrapped string error
  | GoPanic

text \<open>\<^verbatim>\<open>errors.Is\<close>: the target is the error itself or is reached by unwrapping.\<close>

fun errors_Is :: "error \<Rightarrow> error \<Rightarrow> bool" where
  "errors_Is (Wrapped ctx e) target = (Wrapped ctx e = target \<or> errors_Is e target)"
| "errors_Is e target = (e = target)"

text \<open>
  A panic is carried as the error \<open>GoPanic\<close>; \<open>panicked e\<close> says that \<open>e\<close> is one, bare or
  under wrappers.
\<close>

fun panicked :: "error \<Rightarrow> bool" where
  "panicked GoPanic = True"
| "panicked (Wrapped ctx e) = panicked e"
| "panicked e = False"

subsection \<open>Constants of decrypt.go, cmac.go and aesctr.go\<close>

definition SecondsPerDay :: int where "SecondsPerDay = 86400"
definition MinPacketSize :: nat where "MinPacketSize = 10"
definition HeaderSize :: nat where "HeaderSize = 2"
definition ReservedSize :: nat where "ReservedSize = 4"
definition AuthTagSize :: nat where "AuthTagSize = 4"
definition AuthTagOffset :: nat where "AuthTagOffset = HeaderSize + ReservedSize"
definition PayloadOffset :: nat where "PayloadOffset = AuthTagOffset + AuthTagSize"
definition SequenceNumberMask :: "16 word" where "SequenceNumberMask = 0x3FF"
definition DefaultSearchWindowDays :: "64 word" where "DefaultSearchWindowDays = 2"
definition NonceSize :: nat where "NonceSize = 12"
definition AES128KeySize :: nat where "AES128KeySize = 16"
definition AES256KeySize :: nat where "AES256KeySize = 32"

lemmas consts_defs =
  SecondsPerDay_def MinPacketSize_def HeaderSize_def ReservedSize_def AuthTagSize_def
  AuthTagOffset_def PayloadOffset_def SequenceNumberMask_def DefaultSearchWindowDays_def
  NonceSize_def AES128KeySize_def AES256KeySize_def

subsection \<open>Packet codec\<close>

record ParsedPacket =
  SequenceNumber :: "16 word"
  AuthTag :: bytes
  EncryptedPayload :: bytes
  RawPacket :: bytes

text \<open>\<^verbatim>\<open>binary.BigEndian.Uint16\<close> on a two-byte slice.\<close>

definition BigEndian_Uint16 :: "bytes \<Rightarrow> 16 word" where
  "BigEndian_Uint16 b = (ucast (b ! 1)) OR push_bit 8 (ucast (b ! 0))"

text \<open>
  \<^verbatim>\<open>ParsePacket\<close>. The length check comes first, so every index below is in range.
  A payload of exactly ten bytes leaves \<^verbatim>\<open>encPayload\<close> nil, the empty list here.
\<close>

definition ParsePacket :: "bytes \<Rightarrow> error + ParsedPacket" where
  "ParsePacket payload =
     (if length payload < MinPacketSize then
        Inl (Wrapped ''got fewer bytes than the minimum'' ErrPacketTooShort)
      else
        let seqRaw = BigEndian_Uint16 (take 2 payload);
            seqNum = seqRaw AND SequenceNumberMask;
            authTag = take AuthTagSize (drop AuthTagOffset payload);
            encPayload = (if length payload > PayloadOffset then drop PayloadOffset payload else [])
        in Inr \<lparr>SequenceNumber = seqNum, AuthTag = authTag,
                 EncryptedPayload = encPayload, RawPacket = payload\<rparr>)"

subsection \<open>The cryptographic libraries\<close>

text \<open>
  The block cipher, the MAC and the counter mode are not code of this repository
  (\<^verbatim>\<open>crypto/aes\<close>, \<^verbatim>\<open>crypto/cipher\<close>, \<^verbatim>\<open>github.com/aead/cmac\<close>);
  the model takes them as a parameter.
  \<^item> \<open>aes_NewCipher key\<close>: \<^verbatim>\<open>aes.NewCipher(key)\<close> returns no error.
  \<^item> \<open>cmac_New key\<close>: \<^verbatim>\<open>cmac.New(block)\<close> returns no error, for the block of \<open>key\<close>.
  \<^item> \<open>cmac_Sum key data i\<close>: byte \<open>i\<close> of the 16 bytes that \<^verbatim>\<open>mac.Sum(nil)\<close>
    returns after \<open>data\<close> was written to a fresh or reset MAC under \<open>key\<close>.
  \<^item> \<open>ctr_KeyStream key iv i\<close>: byte \<open>i\<close> of the key stream of
    \<^verbatim>\<open>cipher.NewCTR(block, iv)\<close>.
\<close>

record crypto_lib =
  aes_NewCipher :: "bytes \<Rightarrow> bool"
  cmac_New :: "bytes \<Rightarrow> bool"
  cmac_Sum :: "bytes \<Rightarrow> bytes \<Rightarrow> nat \<Rightarrow> byte"
  ctr_KeyStream :: "bytes \<Rightarrow> bytes \<Rightarrow> nat \<Rightarrow> byte"

text \<open>\<^verbatim>\<open>mac.Size()\<close>, 16 for AES-CMAC, and the bytes of \<^verbatim>\<open>mac.Sum(nil)\<close>.\<close>

definition mac_Size :: nat where "mac_Size = 16"

definition mac_Sum :: "crypto_lib \<Rightarrow> bytes \<Rightarrow> bytes \<Rightarrow> bytes" where
  "mac_Sum L key data = map (cmac_Sum L key data) [0..<mac_Size]"

text \<open>
  \<^verbatim>\<open>subtle.ConstantTimeCompare\<close> of the Go standard library: 0 when the lengths
  differ, otherwise the bytewise XORs are ORed together and the result is 1 exactly when
  the accumulated byte is 0.
\<close>

definition ConstantTimeByteEq :: "byte \<Rightarrow> byte \<Rightarrow> int" where
  "ConstantTimeByteEq x y = (if x = y then 1 else 0)"

definition ConstantTimeCompare :: "bytes \<Rightarrow> bytes \<Rightarrow> int" where
  "ConstantTimeCompare x y =
     (if length x \<noteq> length y then 0
      else ConstantTimeByteEq (fold (\<lambda>(a, b) v. v OR (a XOR b)) (zip x y) 0) 0)"

subsection \<open>Truncated MAC (cmac.go)\<close>

definition ComputeAuthTag :: "crypto_lib \<Rightarrow> bytes \<Rightarrow> bytes \<Rightarrow> error + bytes" where
  "ComputeAuthTag L key data =
     (if length key \<noteq> 16 \<and> length key \<noteq> 32 then Inl (KeySizeError (length key))
      else if \<not> aes_NewCipher L key then Inl (Wrapped ''failed to create AES cipher'' CipherError)
      else if \<not> cmac_New L key then Inl (Wrapped ''failed to create CMAC'' CMACError)
      else let fullTag = mac_Sum L key data
           in Inr (take AuthTagSize fullTag))"

definition VerifyAuthTag :: "crypto_lib \<Rightarrow> bytes \<Rightarrow> bytes \<Rightarrow> bytes \<Rightarrow> error + bool" where
  "VerifyAuthTag L key data expectedTag =
     (if length expectedTag \<noteq> AuthTagSize then Inl (TagSizeError (length expectedTag))
      else case ComputeAuthTag L key data of
             Inl err \<Rightarrow> Inl err
           | Inr computedTag \<Rightarrow> Inr (ConstantTimeCompare computedTag expectedTag = 1))"

definition ComputeFullCMAC :: "crypto_lib \<Rightarrow> bytes \<Rightarrow> bytes \<Rightarrow> error + bytes" where
  "ComputeFullCMAC L key data =
     (if length key \<noteq> 16 \<and> length key \<noteq> 32 then Inl (KeySizeError (length key))
      else if \<not> aes_NewCipher L key then Inl (Wrapped ''failed to create AES cipher'' CipherError)
      else if \<not> cmac_New L key then Inl (Wrapped ''failed to create CMAC'' CMACError)
      else Inr (mac_Sum L key data))"

subsection \<open>Counter-mode stream cipher (aesctr.go)\<close>

text \<open>\<^verbatim>\<open>stream.XORKeyStream(dst, src)\<close>: byte \<open>i\<close> of \<open>src\<close> XOR byte \<open>i\<close> of the key stream.\<close>

definition XORKeyStream :: "(nat \<Rightarrow> byte) \<Rightarrow> bytes \<Rightarrow> bytes" where
  "XORKeyStream ks src = map (\<lambda>(i, c). c XOR ks i) (zip [0..<length src] src)"

definition AESCTRDecrypt :: "crypto_lib \<Rightarrow> bytes \<Rightarrow> bytes \<Rightarrow> bytes \<Rightarrow> error + bytes" where
  "AESCTRDecrypt L key nonce ciphertext =
     (if length key \<noteq> AES128KeySize \<and> length key \<noteq> AES256KeySize then Inl (KeySizeError (length key))
      else if length nonce \<noteq> NonceSize then Inl (NonceSizeError (length nonce))
      else if \<not> aes_NewCipher L key then Inl (Wrapped ''failed to create AES cipher'' CipherError)
      else let iv = nonce @ replicate (16 - NonceSize) 0
           in Inr (XORKeyStream (ctr_KeyStream L key iv) ciphertext))"

definition AESCTREncrypt :: "crypto_lib \<Rightarrow> bytes \<Rightarrow> bytes \<Rightarrow> bytes \<Rightarrow> error + bytes" where
  "AESCTREncrypt L key nonce plaintext = AESCTRDecrypt L key nonce plaintext"

subsection \<open>Key derivation (kdf.go)\<close>

text \<open>\<^verbatim>\<open>binary.BigEndian.PutUint32\<close> and \<^verbatim>\<open>AppendUint32\<close>: four bytes, most significant first.\<close>

definition BigEndian_PutUint32 :: "32 word \<Rightarrow> bytes" where
  "BigEndian_PutUint32 v =
     [ucast (drop_bit 24 v), ucast (drop_bit 16 v), ucast (drop_bit 8 v), ucast v]"

text \<open>\<^verbatim>\<open>[]byte(s)\<close>: a Go string is its bytes.\<close>

definition bytes_of_string :: "string \<Rightarrow> bytes" where
  "bytes_of_string s = map of_char s"

text \<open>\<^verbatim>\<open>strconv.FormatUint(n, 10)\<close>: the decimal digits of \<open>n\<close>, no leading zero.\<close>

fun FormatUint :: "nat \<Rightarrow> string" where
  "FormatUint n =
     (if n < 10 then [''0123456789'' ! n]
      else FormatUint (n div 10) @ [''0123456789'' ! (n mod 10)])"

declare FormatUint.simps [simp del]

text \<open>
  The block loop of \<^verbatim>\<open>SP800108CounterKDF\<close>:
  \<^verbatim>\<open>for i := 1; i <= numBlocks; i++\<close>, each round resetting the MAC, writing the counter
  \<^verbatim>\<open>uint32(i)\<close> and the fixed input, and appending the sum to \<open>result\<close>.
\<close>

function KDF_loop :: "crypto_lib \<Rightarrow> bytes \<Rightarrow> bytes \<Rightarrow> nat \<Rightarrow> nat \<Rightarrow> bytes \<Rightarrow> bytes" where
  "KDF_loop L key fixedInput numBlocks i result =
     (if i \<le> numBlocks then
        let counterBytes = BigEndian_PutUint32 (word_of_nat i)
        in KDF_loop L key fixedInput numBlocks (i + 1)
             (result @ mac_Sum L key (counterBytes @ fixedInput))
      else result)"
  by pat_completeness auto
termination
  by (relation "measure (\<lambda>(L, key, fixedInput, numBlocks, i, result). Suc numBlocks - i)") auto

declare KDF_loop.simps [simp del]

text \<open>
  Go's \<^verbatim>\<open>int\<close> is taken at 64 bits, as on the amd64 and arm64 targets; it is a
  \<open>64 word\<close> read as two's complement by \<open>sint\<close>. \<open>int64 x\<close> is the value an
  \<^verbatim>\<open>int\<close> computation leaves when its mathematical result is \<open>x\<close>: the low 64 bits,
  signed.
\<close>

definition int64 :: "int \<Rightarrow> int" where
  "int64 x = sint (word_of_int x :: 64 word)"

text \<open>
  \<^verbatim>\<open>make([]byte, 0, n)\<close> panics for a negative capacity and for a capacity above the
  runtime's \<^verbatim>\<open>maxAlloc\<close>, which is \<open>2^48\<close> bytes on those targets. Below that limit
  the allocation is taken to succeed: running out of memory is not modelled.
\<close>

definition maxAlloc :: int where "maxAlloc = 2 ^ 48"

text \<open>
  \<^verbatim>\<open>SP800108CounterKDF\<close>. The sum \<^verbatim>\<open>outputLen + blockSize - 1\<close> wraps at 64 bits and
  \<^verbatim>\<open>/\<close> truncates towards zero. After the key checks the function can panic twice: in
  \<^verbatim>\<open>make\<close>, on the capacity \<^verbatim>\<open>numBlocks*blockSize\<close>, and in the final slice
  expression \<^verbatim>\<open>result[:outputLen]\<close>, when \<open>outputLen\<close> is negative or above the
  capacity of \<open>result\<close> (the loop fills the capacity exactly, so \<^verbatim>\<open>append\<close> never
  grows it). \<^verbatim>\<open>uint32(outputLen * 8)\<close> keeps the low 32 bits.
\<close>

definition SP800108CounterKDF ::
  "crypto_lib \<Rightarrow> bytes \<Rightarrow> string \<Rightarrow> string \<Rightarrow> 64 word \<Rightarrow> error + bytes" where
  "SP800108CounterKDF L key label context outputLen =
     (if length key \<noteq> 16 \<and> length key \<noteq> 32 then Inl (KeySizeError (length key))
      else if \<not> aes_NewCipher L key then Inl (Wrapped ''failed to create AES cipher'' CipherError)
      else if \<not> cmac_New L key then Inl (Wrapped ''failed to create CMAC'' CMACError)
      else
        let blockSize = int mac_Size;
            numBlocks = int64 (int64 (sint outputLen + blockSize) - 1) sdiv blockSize;
            labelBytes = bytes_of_string label;
            contextBytes = bytes_of_string context;
            outputBits = (word_of_int (sint outputLen * 8) :: 32 word);
            fixedInput = labelBytes @ [0] @ contextBytes @ BigEndian_PutUint32 outputBits;
            capacity = int64 (numBlocks * blockSize)
        in if capacity < 0 \<or> maxAlloc < capacity then Inl GoPanic
           else
             let result = KDF_loop L key fixedInput (nat numBlocks) 1 []
             in if sint outputLen < 0 \<or> capacity < sint outputLen then Inl GoPanic
                else Inr (take (nat (sint outputLen)) result))"

definition DeriveKey :: "crypto_lib \<Rightarrow> bytes \<Rightarrow> 64 word \<Rightarrow> string \<Rightarrow> 32 word \<Rightarrow> error + bytes" where
  "DeriveKey L masterKey outputLen label counter =
     (let context = FormatUint (unat counter)
      in SP800108CounterKDF L masterKey label context outputLen)"

text \<open>\<^verbatim>\<open>len(masterKey)\<close> is an \<^verbatim>\<open>int\<close>.\<close>

definition DeriveNonceKey :: "crypto_lib \<Rightarrow> bytes \<Rightarrow> 32 word \<Rightarrow> error + bytes" where
  "DeriveNonceKey L masterKey timeCounter =
     DeriveKey L masterKey (word_of_nat (length masterKey)) ''NonceKey'' timeCounter"

definition DeriveNonce :: "crypto_lib \<Rightarrow> bytes \<Rightarrow> 32 word \<Rightarrow> error + bytes" where
  "DeriveNonce L nonceKey seqCounter = DeriveKey L nonceKey 12 ''Nonce'' seqCounter"

definition DeriveEncryptionKeyIntermediate :: "crypto_lib \<Rightarrow> bytes \<Rightarrow> 32 word \<Rightarrow> error + bytes" where
  "DeriveEncryptionKeyIntermediate L masterKey timeCounter =
     DeriveKey L masterKey (word_of_nat (length masterKey)) ''EncryptionKey'' timeCounter"

definition DeriveEncryptionKey :: "crypto_lib \<Rightarrow> bytes \<Rightarrow> 32 word \<Rightarrow> error + bytes" where
  "DeriveEncryptionKey L intermediateKey seqCounter =
     DeriveKey L intermediateKey (word_of_nat (length intermediateKey)) ''Key'' seqCounter"

definition FullNonceDerivation :: "crypto_lib \<Rightarrow> bytes \<Rightarrow> 32 word \<Rightarrow> 32 word \<Rightarrow> error + bytes" where
  "FullNonceDerivation L masterKey timeCounter seqCounter =
     (case DeriveNonceKey L masterKey timeCounter of
        Inl err \<Rightarrow> Inl (Wrapped ''failed to derive nonce key'' err)
      | Inr nonceKey \<Rightarrow> DeriveNonce L nonceKey seqCounter)"

definition FullEncryptionKeyDerivation ::
  "crypto_lib \<Rightarrow> bytes \<Rightarrow> 32 word \<Rightarrow> 32 word \<Rightarrow> error + bytes" where
  "FullEncryptionKeyDerivation L masterKey timeCounter seqCounter =
     (case DeriveEncryptionKeyIntermediate L masterKey timeCounter of
        Inl err \<Rightarrow> Inl (Wrapped ''failed to derive intermediate key'' err)
      | Inr intermediateKey \<Rightarrow> DeriveEncryptionKey L intermediateKey seqCounter)"

subsection \<open>Time and options (decrypt.go)\<close>

text \<open>
  A \<^verbatim>\<open>time.Time\<close>, as far as the decryption engine reads it: \<^verbatim>\<open>t.Unix()\<close>, a signed
  64-bit number of seconds, and the nanoseconds within the second. The zero
  \<^verbatim>\<open>time.Time{}\<close> is 1 January of year 1, 00:00:00 UTC, whose \<^verbatim>\<open>Unix()\<close> is
  \<open>-62135596800\<close>; \<^verbatim>\<open>IsZero\<close> recognises exactly that instant.
\<close>

record Time =
  Unix :: "64 word"
  Nanosecond :: nat

definition IsZero :: "Time \<Rightarrow> bool" where
  "IsZero t = (Unix t = - 62135596800 \<and> Nanosecond t = 0)"

text \<open>
  \<^verbatim>\<open>uint32(t.Unix() / SecondsPerDay)\<close>: Go's \<^verbatim>\<open>/\<close> on \<^verbatim>\<open>int64\<close> truncates towards
  zero (\<open>sdiv\<close> on the signed value), and the conversion keeps the low 32 bits.
\<close>

definition TimeToCounter :: "Time \<Rightarrow> 32 word" where
  "TimeToCounter t = word_of_int (sint (Unix t) sdiv SecondsPerDay)"

definition CounterToTime :: "32 word \<Rightarrow> Time" where
  "CounterToTime counter = \<lparr>Unix = ucast counter * word_of_int SecondsPerDay, Nanosecond = 0\<rparr>"

text \<open>\<^verbatim>\<open>models.EncryptedPacket\<close>; its signal strength and location play no part here.\<close>

record EncryptedPacket =
  pkt_Payload :: bytes
  pkt_Timestamp :: Time

record DecryptResult =
  Payload :: bytes
  TimeCounter :: "32 word"
  SeqCounter :: "32 word"

text \<open>
  \<open>SearchWindowDays\<close> is a Go \<^verbatim>\<open>int\<close>, signed; the conversion
  \<^verbatim>\<open>uint32(options.SearchWindowDays)\<close> keeps its low 32 bits (\<open>ucast\<close>).
\<close>

record DecryptOptions =
  SearchWindowDays :: "64 word"
  ExpectedTime :: Time

type_synonym DecryptOption = "DecryptOptions \<Rightarrow> DecryptOptions"

definition WithSearchWindow :: "64 word \<Rightarrow> DecryptOption" where
  "WithSearchWindow days = (\<lambda>options. options\<lparr>SearchWindowDays := days\<rparr>)"

definition WithExpectedTime :: "Time \<Rightarrow> DecryptOption" where
  "WithExpectedTime t = (\<lambda>options. options\<lparr>ExpectedTime := t\<rparr>)"

text \<open>
  The option handling shared by \<^verbatim>\<open>Decrypt\<close> and \<^verbatim>\<open>FindTimeCounter\<close>: defaults, the
  options applied in order, and the current time \<open>now\<close> (what
  \<^verbatim>\<open>time.Now().UTC()\<close> returns) in place of a zero expected time.
\<close>

definition resolve_options :: "Time \<Rightarrow> EncryptedPacket \<Rightarrow> DecryptOption list \<Rightarrow> DecryptOptions" where
  "resolve_options now packet opts =
     (let options = fold (\<lambda>opt options. opt options) opts
            \<lparr>SearchWindowDays = DefaultSearchWindowDays, ExpectedTime = pkt_Timestamp packet\<rparr>
      in if IsZero (ExpectedTime options) then options\<lparr>ExpectedTime := now\<rparr> else options)"

subsection \<open>Decryption engine (decrypt.go)\<close>

text \<open>
  \<^verbatim>\<open>tryDecrypt\<close>, one candidate counter. The slice \<^verbatim>\<open>parsed.RawPacket[:AuthTagOffset]\<close>
  panics on a raw packet shorter than six bytes; \<^verbatim>\<open>ParsePacket\<close> never produces one.
\<close>

definition tryDecrypt :: "crypto_lib \<Rightarrow> bytes \<Rightarrow> ParsedPacket \<Rightarrow> 32 word \<Rightarrow> error + DecryptResult" where
  "tryDecrypt L key parsed timeCounter =
     (let seqCounter = (ucast (SequenceNumber parsed) :: 32 word)
      in if length (RawPacket parsed) < AuthTagOffset then Inl GoPanic
      else
        let authData = take AuthTagOffset (RawPacket parsed)
        in case FullEncryptionKeyDerivation L key timeCounter seqCounter of
             Inl err \<Rightarrow> Inl (Wrapped ''key derivation failed'' err)
           | Inr encKey \<Rightarrow>
              (case ComputeAuthTag L encKey authData of
                 Inl err \<Rightarrow> Inl (Wrapped ''auth tag computation failed'' err)
               | Inr expectedTag \<Rightarrow>
                  (case VerifyAuthTag L encKey authData (AuthTag parsed) of
                     Inl err \<Rightarrow> Inl err
                   | Inr valid \<Rightarrow>
                      if \<not> valid then Inl ErrAuthenticationFail
                      else
                        (case FullNonceDerivation L key timeCounter seqCounter of
                           Inl err \<Rightarrow> Inl (Wrapped ''nonce derivation failed'' err)
                         | Inr nonce \<Rightarrow>
                            (case AESCTRDecrypt L encKey nonce (EncryptedPayload parsed) of
                               Inl err \<Rightarrow> Inl (Wrapped ''decryption failed'' err)
                             | Inr plaintext \<Rightarrow>
                                Inr \<lparr>Payload = plaintext, TimeCounter = timeCounter,
                                      SeqCounter = seqCounter\<rparr>)))))"

text \<open>
  The search loop of \<^verbatim>\<open>Decrypt\<close>:
  \<^verbatim>\<open>for tc := minCounter; tc <= maxCounter; tc++\<close> on \<^verbatim>\<open>uint32\<close>, returning at the
  first candidate without error and going on after any error. With
  \<open>maxCounter = 0xFFFFFFFF\<close> the condition never fails, so the loop is a partial
  function: \<open>None\<close> is a run that does not return.
\<close>

partial_function (option) Decrypt_loop ::
  "crypto_lib \<Rightarrow> bytes \<Rightarrow> ParsedPacket \<Rightarrow> 32 word \<Rightarrow> 32 word \<Rightarrow> (error + DecryptResult) option" where
  "Decrypt_loop L key parsed tc maxCounter =
     (if tc \<le> maxCounter then
        (case tryDecrypt L key parsed tc of
           Inr result \<Rightarrow> Some (Inr result)
         | Inl err \<Rightarrow> Decrypt_loop L key parsed (tc + 1) maxCounter)
      else Some (Inl ErrDecryptionFailed))"

definition Decrypt ::
  "crypto_lib \<Rightarrow> Time \<Rightarrow> bytes \<Rightarrow> EncryptedPacket \<Rightarrow> DecryptOption list
     \<Rightarrow> (error + DecryptResult) option" where
  "Decrypt L now key packet opts =
     (if length key \<noteq> AES128KeySize \<and> length key \<noteq> AES256KeySize then Some (Inl ErrInvalidKey)
      else
        let options = resolve_options now packet opts
        in case ParsePacket (pkt_Payload packet) of
             Inl err \<Rightarrow> Some (Inl err)
           | Inr parsed \<Rightarrow>
              let baseCounter = TimeToCounter (ExpectedTime options);
                  minCounter = baseCounter - ucast (SearchWindowDays options);
                  maxCounter = baseCounter + ucast (SearchWindowDays options)
              in Decrypt_loop L key parsed minCounter maxCounter)"

definition DecryptWithKnownCounter ::
  "crypto_lib \<Rightarrow> bytes \<Rightarrow> EncryptedPacket \<Rightarrow> 32 word \<Rightarrow> error + DecryptResult" where
  "DecryptWithKnownCounter L key packet timeCounter =
     (if length key \<noteq> AES128KeySize \<and> length key \<noteq> AES256KeySize then Inl ErrInvalidKey
      else case ParsePacket (pkt_Payload packet) of
             Inl err \<Rightarrow> Inl err
           | Inr parsed \<Rightarrow> tryDecrypt L key parsed timeCounter)"

text \<open>
  One round of the loop of \<^verbatim>\<open>FindTimeCounter\<close>: \<open>True\<close> when the round returns
  \<open>tc\<close>, \<open>False\<close> when it goes on to the next candidate (after a derivation error, a
  verification error or a mismatch). The round only ever sees a packet that
  \<^verbatim>\<open>ParsePacket\<close> accepted, so the slice of the raw packet is in range.
\<close>

definition FindTimeCounter_round :: "crypto_lib \<Rightarrow> bytes \<Rightarrow> ParsedPacket \<Rightarrow> 32 word \<Rightarrow> bool" where
  "FindTimeCounter_round L key parsed tc =
     (let seqCounter = (ucast (SequenceNumber parsed) :: 32 word)
      in case FullEncryptionKeyDerivation L key tc seqCounter of
           Inl err \<Rightarrow> False
         | Inr encKey \<Rightarrow>
            let authData = take AuthTagOffset (RawPacket parsed)
            in (case VerifyAuthTag L encKey authData (AuthTag parsed) of
                  Inl err \<Rightarrow> False
                | Inr valid \<Rightarrow> valid))"

partial_function (option) FindTimeCounter_loop ::
  "crypto_lib \<Rightarrow> bytes \<Rightarrow> ParsedPacket \<Rightarrow> 32 word \<Rightarrow> 32 word \<Rightarrow> (error + 32 word) option" where
  "FindTimeCounter_loop L key parsed tc maxCounter =
     (if tc \<le> maxCounter then
        (if FindTimeCounter_round L key parsed tc then Some (Inr tc)
         else FindTimeCounter_loop L key parsed (tc + 1) maxCounter)
      else Some (Inl ErrDecryptionFailed))"

definition FindTimeCounter ::
  "crypto_lib \<Rightarrow> Time \<Rightarrow> bytes \<Rightarrow> EncryptedPacket \<Rightarrow> DecryptOption list
     \<Rightarrow> (error + 32 word) option" where
  "FindTimeCounter L now key packet opts =
     (if length key \<noteq> AES128KeySize \<and> length key \<noteq> AES256KeySize then Some (Inl ErrInvalidKey)
      else
        let options = resolve_options now packet opts
        in case ParsePacket (pkt_Payload packet) of
             Inl err \<Rightarrow> Some (Inl err)
           | Inr parsed \<Rightarrow>
              let baseCounter = TimeToCounter (ExpectedTime options);
                  minCounter = baseCounter - ucast (SearchWindowDays options);
                  maxCounter = baseCounter + ucast (SearchWindowDays options)
              in FindTimeCounter_loop L key parsed minCounter maxCounter)"

subsection \<open>Packet construction (decrypt\_test.go)\<close>

text \<open>
  The inverse direction, as \<^verbatim>\<open>TestDecryptIntegration\<close> assembles a packet: the derived
  key and nonce for the counters, the encrypted payload, a six-byte header holding the
  sequence counter in its first two bytes, the tag over the header, and the three parts
  appended. The tests ignore the errors; here they are returned.
\<close>

definition packet_header :: "32 word \<Rightarrow> bytes" where
  "packet_header seqCounter =
     [ucast (drop_bit 8 seqCounter), ucast (seqCounter AND 0xFF), 0, 0, 0, 0]"

definition BuildPacket :: "crypto_lib \<Rightarrow> bytes \<Rightarrow> 32 word \<Rightarrow> 32 word \<Rightarrow> bytes \<Rightarrow> error + bytes" where
  "BuildPacket L key timeCounter seqCounter plaintext =
     (case FullEncryptionKeyDerivation L key timeCounter seqCounter of
        Inl err \<Rightarrow> Inl err
      | Inr encKey \<Rightarrow>
         (case FullNonceDerivation L key timeCounter seqCounter of
            Inl err \<Rightarrow> Inl err
          | Inr nonce \<Rightarrow>
             (case AESCTREncrypt L encKey nonce plaintext of
                Inl err \<Rightarrow> Inl err
              | Inr ciphertext \<Rightarrow>
                 let header = packet_header seqCounter
                 in (case ComputeAuthTag L encKey header of
                       Inl err \<Rightarrow> Inl err
                     | Inr authTag \<Rightarrow> Inr (header @ authTag @ ciphertext)))))"

subsection \<open>The key derivation as the specification words it\<close>

text \<open>
  Block \<open>i\<close> of the counter-mode construction for an output of \<open>len\<close> bytes: the MAC
  of the 32-bit big-endian counter followed by label, a zero byte, context and the output
  length in bits as 32 bits, big-endian.
\<close>

definition KDF_spec_block :: "crypto_lib \<Rightarrow> bytes \<Rightarrow> string \<Rightarrow> string \<Rightarrow> nat \<Rightarrow> nat \<Rightarrow> bytes" where
  "KDF_spec_block L key label context len i =
     mac_Sum L key (BigEndian_PutUint32 (word_of_nat i) @ bytes_of_string label @ [0]
        @ bytes_of_string context @ BigEndian_PutUint32 (word_of_nat (8 * len)))"

text \<open>The first \<open>len\<close> bytes of blocks 1, 2, ..., \<open>n\<close> concatenated.\<close>

definition KDF_spec :: "crypto_lib \<Rightarrow> bytes \<Rightarrow> string \<Rightarrow> string \<Rightarrow> nat \<Rightarrow> nat \<Rightarrow> bytes" where
  "KDF_spec L key label context len n =
     take len (concat (map (KDF_spec_block L key label context len) [1..<Suc n]))"

text \<open>The number a string of decimal digits denotes.\<close>

definition digit_value :: "char \<Rightarrow> nat" where
  "digit_value c = of_char c - 48"

definition decimal_value :: "string \<Rightarrow> nat" where
  "decimal_value s = foldl (\<lambda>acc c. 10 * acc + digit_value c) 0 s"

subsection \<open>What the callers may assume of the libraries\<close>

text \<open>
  \<^verbatim>\<open>aes.NewCipher\<close> accepts every key of 16 or 32 bytes, and \<^verbatim>\<open>cmac.New\<close> accepts
  every AES block.
\<close>

definition lib_ok :: "crypto_lib \<Rightarrow> bool" where
  "lib_ok L = (\<forall>key. length key = 16 \<or> length key = 32 \<longrightarrow> aes_NewCipher L key \<and> cmac_New L key)"

subsection \<open>A small instance of the libraries\<close>

text \<open>
  A concrete, computable instance of the library parameter, on which the definitions can
  be run. It is a checksum, not AES: it serves to exercise the control flow of the engine
  at concrete inputs. \<open>rejecting_lib\<close> is the same instance with a cipher constructor
  that returns an error for every key.
\<close>

definition demo_state :: "bytes \<Rightarrow> nat" where
  "demo_state bs = fold (\<lambda>b acc. (acc * 131 + unat b + 1) mod 65521) bs 1"

definition demo_mac :: "bytes \<Rightarrow> bytes \<Rightarrow> nat \<Rightarrow> byte" where
  "demo_mac key data = (\<lambda>i. word_of_nat ((demo_state (key @ 0 # data) + 7) * (2 * i + 3)))"

definition demo_stream :: "bytes \<Rightarrow> bytes \<Rightarrow> nat \<Rightarrow> byte" where
  "demo_stream key iv = (\<lambda>i. word_of_nat (demo_state (key @ iv) + 5 * i))"

definition demo_lib :: crypto_lib where
  "demo_lib = \<lparr>aes_NewCipher = (\<lambda>key. True), cmac_New = (\<lambda>key. True),
                cmac_Sum = demo_mac, ctr_KeyStream = demo_stream\<rparr>"


text \<open>The 16-byte key of the integration tests: bytes 0, 1, 2, ... in order.\<close>

definition demo_key16 :: bytes where
  "demo_key16 = [0, 1, 2, 3, 4, 5, 6, 7, 8, 9, 10, 11, 12, 13, 14, 15]"

text \<open>
  Packets built with the small instance under \<open>demo_key16\<close>: \<open>demo_packet16\<close> at time
  counter 20001 and sequence counter 75 with the plaintext \<^verbatim>\<open>payload\<close>,
  \<open>demo_packet_epoch\<close> at time counter 0 and sequence counter 0 with the plaintext
  \<open>[1, 2, 3]\<close>, \<open>demo_packet_far\<close> at time counter \<open>2^31\<close> and sequence counter 75 with
  an empty plaintext, and \<open>demo_packet_tie\<close> at time counter 20084 and sequence counter 42
  with the plaintext \<^verbatim>\<open>payload\<close>; under the small instance the four-byte tag of this last
  packet is also the tag of the day before, 20083, under that day's different key.
  \<open>demo_capture\<close> is the captured packet the engine receives, and \<open>demo_now\<close> the wall
  clock, which the engine reads only for a packet without a timestamp.
\<close>

definition demo_packet16 :: bytes where
  "demo_packet16 = [0, 75, 0, 0, 0, 0, 89, 63, 37, 11, 162, 182, 165, 141, 137, 138, 148]"

definition demo_packet_epoch :: bytes where
  "demo_packet_epoch = [0, 0, 0, 0, 0, 0, 79, 217, 99, 237, 95, 97, 107]"

definition demo_packet_far :: bytes where
  "demo_packet_far = [0, 75, 0, 0, 0, 0, 197, 243, 33, 79]"


definition demo_capture :: "bytes \<Rightarrow> Time \<Rightarrow> EncryptedPacket" where
  "demo_capture payload t = \<lparr>pkt_Payload = payload, pkt_Timestamp = t\<rparr>"

definition demo_now :: Time where
  "demo_now = CounterToTime 20100"

section \<open>Packet codec: properties\<close>

lemma or_plus_u16:
  "(ucast (b::byte) :: 16 word) OR push_bit 8 (ucast (a::byte)) = ucast b + push_bit 8 (ucast a)"
  by (rule disjunctive_add [symmetric]) (auto simp: bit_simps dest: bit_imp_le_length)

lemma unat_byte_lt: "unat (a::byte) < 256"
  using unsigned_less [of a, where 'a = nat] by simp

lemma unat_ucast_8_16: "unat (ucast (a::byte) :: 16 word) = unat a"
  using unat_byte_lt [of a] by (simp add: unsigned_ucast_eq take_bit_nat_eq_self)

lemma BigEndian_Uint16_unat: "unat (BigEndian_Uint16 [a, b]) = 256 * unat a + unat b"
proof -
  have "unat a < 256" and "unat b < 256"
    using unat_byte_lt by simp_all
  then have lt: "unat b + 256 * unat a < 65536"
    by simp
  have "BigEndian_Uint16 [a, b] = ucast b + push_bit 8 (ucast a)"
    unfolding BigEndian_Uint16_def
    by (simp only: or_plus_u16 nth_Cons_0 nth_Cons_Suc One_nat_def)
  also have "unat \<dots> = 256 * unat a + unat b"
    using lt by (simp add: unat_word_ariths push_bit_eq_mult unat_ucast_8_16)
  finally show ?thesis .
qed

lemma unat_mask_3FF: "unat ((w::16 word) AND 0x3FF) = unat w mod 1024"
proof -
  have "w AND 0x3FF = take_bit 10 w"
    by (simp add: take_bit_eq_mask mask_eq_exp_minus_1)
  then have "unat (w AND 0x3FF) = take_bit 10 (unat w)"
    by (simp only: unsigned_take_bit_eq)
  then show ?thesis
    by (simp add: take_bit_eq_mod)
qed

lemma take_two: "2 \<le> length xs \<Longrightarrow> take 2 xs = [xs ! 0, xs ! 1]"
  by (cases xs; cases "tl xs") auto

lemma ParsePacket_ok:
  assumes "10 \<le> length payload"
  shows "ParsePacket payload =
     Inr \<lparr>SequenceNumber = BigEndian_Uint16 [payload ! 0, payload ! 1] AND 0x3FF,
          AuthTag = take 4 (drop 6 payload),
          EncryptedPayload = drop 10 payload, RawPacket = payload\<rparr>"
  using assms by (simp add: ParsePacket_def consts_defs take_two Let_def)

lemma ParsePacket_short:
  assumes "length payload < 10"
  shows "ParsePacket payload =
     Inl (Wrapped ''got fewer bytes than the minimum'' ErrPacketTooShort)"
  using assms by (simp add: ParsePacket_def consts_defs)

text \<open>
  Claim C5. For every input of at least ten bytes \<^verbatim>\<open>ParsePacket\<close> succeeds, and the
  sequence number is the big-endian 16-bit value of the first two bytes masked with
  \<open>0x3FF\<close>: as a number, \<open>256 * b0 + b1\<close> modulo 1024, so the six high bits are dropped
  and never lead to a rejection.
\<close>

theorem ParsePacket_sequence_mask:
  assumes "10 \<le> length payload"
  shows "\<exists>parsed. ParsePacket payload = Inr parsed \<and>
           SequenceNumber parsed = BigEndian_Uint16 [payload ! 0, payload ! 1] AND 0x3FF \<and>
           unat (SequenceNumber parsed) = (256 * unat (payload ! 0) + unat (payload ! 1)) mod 1024 \<and>
           unat (SequenceNumber parsed) \<le> 1023"
proof -
  have "unat (BigEndian_Uint16 [payload ! 0, payload ! 1] AND 0x3FF)
          = (256 * unat (payload ! 0) + unat (payload ! 1)) mod 1024"
    by (simp only: unat_mask_3FF BigEndian_Uint16_unat)
  moreover have "(256 * unat (payload ! 0) + unat (payload ! 1)) mod 1024 \<le> 1023"
    using mod_less_divisor [of 1024 "256 * unat (payload ! 0) + unat (payload ! 1)"]
    by linarith
  ultimately show ?thesis
    using ParsePacket_ok [OF assms] by simp
qed

text \<open>The two header values of the claim: \<open>0xFFFF\<close> gives 1023 and \<open>0x0042\<close> gives 66.\<close>

theorem ParsePacket_sequence_mask_witness:
  "10 \<le> length [0xFF, 0xFF, 0, 0, 0, 0, 0, 0, 0, 0 :: byte] \<and>
   (\<exists>parsed. ParsePacket [0xFF, 0xFF, 0, 0, 0, 0, 0, 0, 0, 0] = Inr parsed \<and>
      SequenceNumber parsed = 1023) \<and>
   (\<exists>parsed. ParsePacket [0x00, 0x42, 0, 0, 0, 0, 0xAA, 0xBB, 0xCC, 0xDD, 1, 2, 3, 4] = Inr parsed \<and>
      SequenceNumber parsed = 66)"
  using ParsePacket_sequence_mask [of "[0xFF, 0xFF, 0, 0, 0, 0, 0, 0, 0, 0]"]
        ParsePacket_sequence_mask [of "[0x00, 0x42, 0, 0, 0, 0, 0xAA, 0xBB, 0xCC, 0xDD, 1, 2, 3, 4]"]
  by (auto simp: BigEndian_Uint16_def)

text \<open>
  Claim C6. \<^verbatim>\<open>ParsePacket\<close> fails exactly when the input is shorter than ten bytes, and
  then with \<^verbatim>\<open>ErrPacketTooShort\<close>. Otherwise the tag is the four bytes at offsets 6
  to 9, the encrypted payload is the bytes from offset 10 to the end (none for an input of
  exactly ten bytes), and the raw packet is kept.
\<close>

theorem ParsePacket_layout:
  "((\<exists>e. ParsePacket payload = Inl e) \<longleftrightarrow> length payload < 10) \<and>
   (\<forall>e. ParsePacket payload = Inl e \<longrightarrow> errors_Is e ErrPacketTooShort) \<and>
   (\<forall>parsed. ParsePacket payload = Inr parsed \<longrightarrow>
      length (AuthTag parsed) = 4 \<and>
      (\<forall>i<4. AuthTag parsed ! i = payload ! (6 + i)) \<and>
      length (EncryptedPayload parsed) = length payload - 10 \<and>
      (\<forall>i<length payload - 10. EncryptedPayload parsed ! i = payload ! (10 + i)) \<and>
      (length payload = 10 \<longrightarrow> EncryptedPayload parsed = []) \<and>
      RawPacket parsed = payload)"
proof (cases "length payload < 10")
  case True
  then show ?thesis
    using ParsePacket_short [OF True] by simp
next
  case False
  then have ge: "10 \<le> length payload"
    by simp
  show ?thesis
    using False ParsePacket_ok [OF ge] by auto
qed

theorem ParsePacket_layout_witness:
  "(\<exists>e. ParsePacket [0, 1, 2, 3, 4, 5, 6, 7, 8] = Inl e \<and> errors_Is e ErrPacketTooShort) \<and>
   (\<exists>parsed. ParsePacket [0, 1, 2, 3, 4, 5, 6, 7, 8, 9] = Inr parsed \<and>
      AuthTag parsed = [6, 7, 8, 9] \<and> EncryptedPayload parsed = []) \<and>
   (\<exists>parsed. ParsePacket [0, 1, 2, 3, 4, 5, 6, 7, 8, 9, 10, 11] = Inr parsed \<and>
      AuthTag parsed = [6, 7, 8, 9] \<and> EncryptedPayload parsed = [10, 11])"
  using ParsePacket_layout [of "[0, 1, 2, 3, 4, 5, 6, 7, 8]"]
        ParsePacket_layout [of "[0, 1, 2, 3, 4, 5, 6, 7, 8, 9]"]
        ParsePacket_layout [of "[0, 1, 2, 3, 4, 5, 6, 7, 8, 9, 10, 11]"]
  by (simp add: ParsePacket_def consts_defs)

section \<open>Truncated MAC and key derivation: properties\<close>

lemma xor_zero_iff: "a XOR b = 0 \<longleftrightarrow> a = b" for a b :: byte
proof
  assume "a XOR b = 0"
  then have "(a XOR b) XOR b = b" by simp
  then show "a = b" by (simp add: xor.assoc)
qed simp

lemma fold_or_xor_zero:
  "fold (\<lambda>(a, b) v. v OR (a XOR b)) ps (v0::byte) = 0 \<longleftrightarrow> v0 = 0 \<and> (\<forall>(a, b)\<in>set ps. a = b)"
  by (induction ps arbitrary: v0) (auto simp: or_eq_0_iff xor_zero_iff)

lemma ConstantTimeCompare_eq: "ConstantTimeCompare x y = 1 \<longleftrightarrow> x = y"
  by (auto simp: ConstantTimeCompare_def ConstantTimeByteEq_def fold_or_xor_zero list_eq_iff_zip_eq)

lemma length_mac_Sum [simp]: "length (mac_Sum L key data) = 16"
  by (simp add: mac_Sum_def mac_Size_def)

text \<open>
  Claim C4. For a key of 16 or 32 bytes (which the libraries accept), the tag of
  \<^verbatim>\<open>ComputeAuthTag\<close> is the first four bytes of the 16-byte MAC of
  \<^verbatim>\<open>ComputeFullCMAC\<close>, and \<^verbatim>\<open>VerifyAuthTag\<close> on a four-byte tag returns true
  exactly when that tag is the one \<^verbatim>\<open>ComputeAuthTag\<close> computes.
\<close>

theorem auth_tag_is_truncated_mac:
  assumes "lib_ok L" and "length key = 16 \<or> length key = 32"
  shows "\<exists>full. ComputeFullCMAC L key data = Inr full \<and> length full = 16 \<and>
           ComputeAuthTag L key data = Inr (take 4 full) \<and>
           (\<forall>tag. length tag = 4 \<longrightarrow>
              VerifyAuthTag L key data tag = Inr (tag = take 4 full) \<and>
              (VerifyAuthTag L key data tag = Inr True \<longleftrightarrow> ComputeAuthTag L key data = Inr tag))"
proof -
  from assms have ok: "aes_NewCipher L key" "cmac_New L key"
    by (auto simp: lib_ok_def)
  have full: "ComputeFullCMAC L key data = Inr (mac_Sum L key data)"
    using assms(2) ok by (auto simp: ComputeFullCMAC_def)
  have tag: "ComputeAuthTag L key data = Inr (take 4 (mac_Sum L key data))"
    using assms(2) ok by (auto simp: ComputeAuthTag_def AuthTagSize_def)
  have "VerifyAuthTag L key data t = Inr (t = take 4 (mac_Sum L key data))" if "length t = 4" for t
    using that tag ConstantTimeCompare_eq [of "take 4 (mac_Sum L key data)" t]
    by (auto simp: VerifyAuthTag_def AuthTagSize_def)
  then show ?thesis
    using full tag by auto
qed

lemma KDF_loop_eq:
  "KDF_loop L key fixedInput numBlocks i result =
     result @ concat (map (\<lambda>j. mac_Sum L key (BigEndian_PutUint32 (word_of_nat j) @ fixedInput))
                          [i..<Suc numBlocks])"
proof (induction L key fixedInput numBlocks i result rule: KDF_loop.induct)
  case (1 L key fixedInput numBlocks i result)
  show ?case
  proof (cases "i \<le> numBlocks")
    case True
    then have "[i..<Suc numBlocks] = i # [Suc i..<Suc numBlocks]"
      by (simp add: upt_conv_Cons)
    with True 1 show ?thesis
      by (subst KDF_loop.simps) (simp add: Let_def)
  next
    case False
    then show ?thesis
      by (subst KDF_loop.simps) simp
  qed
qed

lemma length_concat_blocks:
  "(\<And>j. length (f j) = 16) \<Longrightarrow> length (concat (map f [a..<b])) = 16 * (b - a)"
  by (induction b) (auto)

lemma take_concat_blocks:
  assumes len: "\<And>j. length (f j) = 16" and m: "m \<le> n" and k: "k \<le> 16 * m"
  shows "take k (concat (map f [1..<Suc n])) = take k (concat (map f [1..<Suc m]))"
proof -
  have "[1..<Suc n] = [1..<Suc m] @ [Suc m..<Suc n]"
    using m by (metis Suc_le_mono le_add1 plus_1_eq_Suc upt_add_eq_append le_Suc_ex)
  then have "concat (map f [1..<Suc n]) = concat (map f [1..<Suc m]) @ concat (map f [Suc m..<Suc n])"
    by simp
  moreover have "length (concat (map f [1..<Suc m])) = 16 * m"
    using length_concat_blocks [of f 1 "Suc m"] len by simp
  ultimately show ?thesis
    using k by simp
qed

lemma digit_value_nth: "d < 10 \<Longrightarrow> digit_value (''0123456789'' ! d) = d"
proof -
  assume "d < 10"
  then have "d \<in> {0, 1, 2, 3, 4, 5, 6, 7, 8, 9}" by auto
  then show ?thesis by (auto simp: digit_value_def)
qed

lemma decimal_value_snoc: "decimal_value (s @ [c]) = 10 * decimal_value s + digit_value c"
  by (simp add: decimal_value_def)

lemma decimal_value_FormatUint: "decimal_value (FormatUint n) = n"
proof (induction n rule: FormatUint.induct)
  case (1 n)
  show ?case
  proof (cases "n < 10")
    case True
    then show ?thesis
      by (subst FormatUint.simps) (simp add: decimal_value_def digit_value_nth)
  next
    case False
    with 1 show ?thesis
      by (subst FormatUint.simps) (simp add: decimal_value_snoc digit_value_nth)
  qed
qed

lemma FormatUint_digits: "set (FormatUint n) \<subseteq> set ''0123456789''"
proof (induction n rule: FormatUint.induct)
  case (1 n)
  have d: "''0123456789'' ! d \<in> set ''0123456789''" if "d < 10" for d
    using that nth_mem [of d "''0123456789''"] by simp
  show ?case
  proof (cases "n < 10")
    case True
    then show ?thesis
      using d [of n] by (subst FormatUint.simps) simp
  next
    case False
    with 1 show ?thesis
      using d [of "n mod 10"] by (subst FormatUint.simps) simp
  qed
qed

lemma demo_lib_ok: "lib_ok demo_lib"
  by (simp add: lib_ok_def demo_lib_def)

lemma upt_16: "[0..<16] = [0, 1, 2, 3, 4, 5, 6, 7, 8, 9, 10, 11, 12, 13, 14, 15]"
  by (simp add: upt_rec)

lemmas demo_defs = demo_lib_def demo_mac_def demo_stream_def demo_state_def mac_Sum_def mac_Size_def upt_16

lemma FormatUint_canonical:
  "FormatUint n \<noteq> [] \<and> (n \<noteq> 0 \<longrightarrow> hd (FormatUint n) \<noteq> CHR ''0'')"
proof (induction n rule: FormatUint.induct)
  case (1 n)
  show ?case
  proof (cases "n < 10")
    case True
    then have "n \<in> {0, 1, 2, 3, 4, 5, 6, 7, 8, 9}"
      by auto
    then show ?thesis
      by (subst (1 2) FormatUint.simps) auto
  next
    case False
    then have "n div 10 \<noteq> 0"
      by simp
    with False 1 have "FormatUint (n div 10) \<noteq> []" "hd (FormatUint (n div 10)) \<noteq> CHR ''0''"
      by simp_all
    with False show ?thesis
      by (subst (1 2) FormatUint.simps) simp
  qed
qed

lemma int64_id: "int64 x = x" if "- (2 ^ 63) \<le> x" and "x < 2 ^ 63"
  using that by (simp add: int64_def sint_sbintrunc' signed_take_bit_int_eq_self)

lemma sdiv_nonneg: "a sdiv 16 = a div 16" if "0 \<le> a" for a :: int
  using that by (cases "a = 0") (simp_all add: signed_divide_int_def)

lemma SP800108CounterKDF_blocks:
  assumes "aes_NewCipher L key" and "cmac_New L key" and "length key = 16 \<or> length key = 32"
    and "0 \<le> sint outputLen" and "16 * ((sint outputLen + 15) div 16) \<le> maxAlloc"
    and "nat (sint outputLen) \<le> 16 * n"
  shows "SP800108CounterKDF L key label context outputLen
           = Inr (KDF_spec L key label context (nat (sint outputLen)) n)"
proof -
  define N where "N = sint outputLen"
  define m where "m = (N + 15) div 16"
  have N0: "0 \<le> N"
    using assms(4) by (simp add: N_def)
  have m48: "16 * m \<le> 281474976710656"
    using assms(5) by (simp add: N_def m_def maxAlloc_def)
  have Nm: "N \<le> 16 * m" and m0: "0 \<le> m"
    using N0 by (simp_all add: m_def)
  have N48: "N \<le> 281474976710656"
    using Nm m48 by linarith
  have i1: "int64 (N + 16) = N + 16"
    using N0 N48 by (intro int64_id) simp_all
  have i2: "int64 (N + 15) = N + 15"
    using N0 N48 by (intro int64_id) simp_all
  have "int64 (N + 16) - 1 = N + 15"
    by (simp add: i1)
  then have "int64 (int64 (N + 16) - 1) = N + 15"
    by (simp only: i2)
  moreover have "(N + 15) sdiv 16 = m"
    using N0 by (simp add: sdiv_nonneg m_def)
  ultimately have nb: "int64 (int64 (N + 16) - 1) sdiv 16 = m"
    by (simp only:)
  have cap: "int64 (m * 16) = 16 * m"
    using m0 m48 by (subst int64_id) simp_all
  have natm: "nat m = (nat N + 15) div 16"
    using N0 by (simp add: m_def nat_div_distrib nat_add_distrib)
  have mn: "nat N \<le> 16 * nat m" "nat m \<le> n"
    using assms(6) Nm m0 N0 by (simp_all add: natm N_def)
  have bits: "(word_of_int (N * 8) :: 32 word) = word_of_nat (8 * nat N)"
    using N0 by (simp add: mult.commute)
  let ?f = "KDF_spec_block L key label context (nat N)"
  have f: "(\<lambda>j. mac_Sum L key (BigEndian_PutUint32 (word_of_nat j) @ bytes_of_string label @ [0]
               @ bytes_of_string context @ BigEndian_PutUint32 (word_of_nat (8 * nat N)))) = ?f"
    by (simp add: fun_eq_iff KDF_spec_block_def)
  have "SP800108CounterKDF L key label context outputLen
          = Inr (take (nat N) (KDF_loop L key (bytes_of_string label @ [0]
               @ bytes_of_string context @ BigEndian_PutUint32 (word_of_int (N * 8))) (nat m) 1 []))"
    using assms(1-3) N0 Nm m0 m48
    by (auto simp add: SP800108CounterKDF_def Let_def mac_Size_def N_def [symmetric] nb cap
          maxAlloc_def simp del: append.simps append_Cons append_Nil)
  also have "\<dots> = Inr (take (nat N) (KDF_loop L key (bytes_of_string label @ [0]
               @ bytes_of_string context @ BigEndian_PutUint32 (word_of_nat (8 * nat N))) (nat m) 1 []))"
    by (simp only: bits)
  also have "\<dots> = Inr (take (nat N) (concat (map ?f [1..<Suc (nat m)])))"
    by (simp only: KDF_loop_eq f append_Nil)
  also have "take (nat N) (concat (map ?f [1..<Suc (nat m)]))
              = take (nat N) (concat (map ?f [1..<Suc n]))"
    by (rule take_concat_blocks [symmetric]) (simp_all add: mn KDF_spec_block_def)
  finally show ?thesis
    by (simp add: KDF_spec_def N_def)
qed

lemma SP800108CounterKDF_panics:
  assumes "aes_NewCipher L key" and "cmac_New L key" and "length key = 16 \<or> length key = 32"
    and "sint outputLen < 0"
  shows "SP800108CounterKDF L key label context outputLen = Inl GoPanic"
  using assms by (auto simp: SP800108CounterKDF_def Let_def)

lemma length_KDF_spec:
  assumes "len \<le> 16 * n"
  shows "length (KDF_spec L key label context len n) = len"
proof -
  have "length (concat (map (KDF_spec_block L key label context len) [1..<Suc n])) = 16 * n"
    using length_concat_blocks [of "KDF_spec_block L key label context len" 1 "Suc n"]
    by (simp add: KDF_spec_block_def)
  then show ?thesis
    using assms by (simp add: KDF_spec_def)
qed

text \<open>
  Claim C3. For a key of 16 or 32 bytes and an output length \<open>outputLen\<close> that is not
  negative and whose block capacity the runtime can allocate, the output of
  \<^verbatim>\<open>SP800108CounterKDF\<close> is the first \<open>outputLen\<close> bytes of the blocks
  \<open>MAC(key, counter || label || 0x00 || context || bits)\<close> for the counters 1, 2, ...
  (any number \<open>n\<close> of blocks that covers the length gives the same bytes), and
  \<^verbatim>\<open>DeriveKey\<close> is the same function at the decimal digits of its counter: digits only,
  not empty, no leading zero, denoting the counter.
\<close>

theorem KDF_counter_mode:
  assumes "lib_ok L" and "length key = 16 \<or> length key = 32"
    and "0 \<le> sint outputLen" and "16 * ((sint outputLen + 15) div 16) \<le> maxAlloc"
    and "nat (sint outputLen) \<le> 16 * n"
  shows "SP800108CounterKDF L key label context outputLen
           = Inr (KDF_spec L key label context (nat (sint outputLen)) n) \<and>
         length (KDF_spec L key label context (nat (sint outputLen)) n) = nat (sint outputLen) \<and>
         DeriveKey L key outputLen label counter
           = Inr (KDF_spec L key label (FormatUint (unat counter)) (nat (sint outputLen)) n) \<and>
         decimal_value (FormatUint (unat counter)) = unat counter \<and>
         set (FormatUint (unat counter)) \<subseteq> set ''0123456789'' \<and>
         FormatUint (unat counter) \<noteq> [] \<and>
         (counter \<noteq> 0 \<longrightarrow> hd (FormatUint (unat counter)) \<noteq> CHR ''0'')"
proof -
  from assms have ok: "aes_NewCipher L key" "cmac_New L key"
    by (auto simp: lib_ok_def)
  have "SP800108CounterKDF L key lbl ctx outputLen
          = Inr (KDF_spec L key lbl ctx (nat (sint outputLen)) n)" for lbl ctx
    using SP800108CounterKDF_blocks [OF ok assms(2-5)] .
  moreover have "counter \<noteq> 0 \<longrightarrow> unat counter \<noteq> 0"
    by (simp add: unsigned_eq_0_iff)
  ultimately show ?thesis
    using length_KDF_spec [OF assms(5)] FormatUint_digits [of "unat counter"]
      FormatUint_canonical [of "unat counter"]
    by (simp add: DeriveKey_def decimal_value_FormatUint del: set_simps list.set)
qed

theorem auth_tag_is_truncated_mac_witness:
  "lib_ok demo_lib \<and> (length demo_key16 = 16 \<or> length demo_key16 = 32) \<and>
   ComputeFullCMAC demo_lib demo_key16 [0, 42, 0, 0, 0, 0]
     = Inr [254, 82, 166, 250, 78, 162, 246, 74, 158, 242, 70, 154, 238, 66, 150, 234] \<and>
   ComputeAuthTag demo_lib demo_key16 [0, 42, 0, 0, 0, 0] = Inr [254, 82, 166, 250] \<and>
   VerifyAuthTag demo_lib demo_key16 [0, 42, 0, 0, 0, 0] [254, 82, 166, 250] = Inr True \<and>
   VerifyAuthTag demo_lib demo_key16 [0, 42, 0, 0, 0, 0] [254, 82, 166, 251] = Inr False"
proof -
  have key: "length demo_key16 = 16 \<or> length demo_key16 = 32"
    by (simp add: demo_key16_def)
  have full: "ComputeFullCMAC demo_lib demo_key16 [0, 42, 0, 0, 0, 0]
     = Inr [254, 82, 166, 250, 78, 162, 246, 74, 158, 242, 70, 154, 238, 66, 150, 234]"
    by (simp add: ComputeFullCMAC_def demo_defs demo_key16_def)
  show ?thesis
    using auth_tag_is_truncated_mac [OF demo_lib_ok key, of "[0, 42, 0, 0, 0, 0]"] key full demo_lib_ok
    by auto
qed

theorem KDF_counter_mode_witness:
  "lib_ok demo_lib \<and> (length demo_key16 = 16 \<or> length demo_key16 = 32) \<and>
   0 \<le> sint (20 :: 64 word) \<and> 16 * ((sint (20 :: 64 word) + 15) div 16) \<le> maxAlloc \<and>
   nat (sint (20 :: 64 word)) \<le> 16 * 2 \<and>
   SP800108CounterKDF demo_lib demo_key16 ''Nonce'' ''42'' 20
     = Inr [57, 95, 133, 171, 209, 247, 29, 67, 105, 143, 181, 219, 1, 39, 77, 115, 53, 3, 209, 159] \<and>
   DeriveKey demo_lib demo_key16 20 ''Nonce'' 42
     = Inr [57, 95, 133, 171, 209, 247, 29, 67, 105, 143, 181, 219, 1, 39, 77, 115, 53, 3, 209, 159] \<and>
   FormatUint (unat (42 :: 32 word)) = ''42''"
proof -
  have key: "length demo_key16 = 16 \<or> length demo_key16 = 32"
    by (simp add: demo_key16_def)
  have len: "0 \<le> sint (20 :: 64 word)" "16 * ((sint (20 :: 64 word) + 15) div 16) \<le> maxAlloc"
      "nat (sint (20 :: 64 word)) \<le> 16 * 2" "nat (sint (20 :: 64 word)) = 20"
    by (simp_all add: maxAlloc_def)
  have fmt: "FormatUint (unat (42 :: 32 word)) = ''42''"
    by (simp add: FormatUint.simps)
  have spec: "KDF_spec demo_lib demo_key16 ''Nonce'' ''42'' 20 2
     = [57, 95, 133, 171, 209, 247, 29, 67, 105, 143, 181, 219, 1, 39, 77, 115, 53, 3, 209, 159]"
    by (simp add: KDF_spec_def KDF_spec_block_def demo_defs demo_key16_def BigEndian_PutUint32_def
          bytes_of_string_def upt_rec)
  show ?thesis
    using KDF_counter_mode [OF demo_lib_ok key len(1-3), of "''Nonce''" "''42''" 42]
      key fmt spec demo_lib_ok len
    by simp
qed

section \<open>The two searches: properties\<close>

subsection \<open>The loops agree\<close>

lemma Decrypt_loop_skip:
  assumes "\<forall>k<n. tc + of_nat k \<le> maxc \<and> isl (tryDecrypt L key parsed (tc + of_nat k))"
  shows "Decrypt_loop L key parsed tc maxc = Decrypt_loop L key parsed (tc + of_nat n) maxc"
  using assms
proof (induction n arbitrary: tc)
  case 0
  then show ?case by simp
next
  case (Suc n)
  from Suc.prems have first: "tc \<le> maxc" "isl (tryDecrypt L key parsed tc)"
    by (auto dest: spec [of _ 0])
  have "\<forall>k<n. tc + 1 + of_nat k \<le> maxc \<and> isl (tryDecrypt L key parsed (tc + 1 + of_nat k))"
  proof (intro allI impI)
    fix k assume "k < n"
    then have "Suc k < Suc n" by simp
    with Suc.prems show "tc + 1 + of_nat k \<le> maxc \<and> isl (tryDecrypt L key parsed (tc + 1 + of_nat k))"
      by (metis add.assoc of_nat_Suc)
  qed
  from Suc.IH [OF this] have "Decrypt_loop L key parsed (tc + 1) maxc
      = Decrypt_loop L key parsed (tc + of_nat (Suc n)) maxc"
    by (simp add: add.assoc)
  moreover have "Decrypt_loop L key parsed tc maxc = Decrypt_loop L key parsed (tc + 1) maxc"
    using first by (subst Decrypt_loop.simps) (auto simp: isl_def)
  ultimately show ?case by simp
qed

lemma Decrypt_loop_Some_stops:
  assumes "Decrypt_loop L key parsed tc maxc = Some y"
  shows "\<exists>n. \<not> (tc + of_nat n \<le> maxc \<and> isl (tryDecrypt L key parsed (tc + of_nat n)))"
proof (rule Decrypt_loop.raw_induct
    [where P = "\<lambda>L key parsed tc maxc y.
        \<exists>n. \<not> (tc + of_nat n \<le> maxc \<and> isl (tryDecrypt L key parsed (tc + of_nat n)))",
     OF _ assms])
  fix f L key parsed and tc maxc :: "32 word" and y
  assume IH: "\<And>L key parsed tc maxc y. f L key parsed tc maxc = Some y \<Longrightarrow>
      \<exists>n. \<not> (tc + of_nat n \<le> maxc \<and> isl (tryDecrypt L key parsed (tc + of_nat n)))"
    and eq: "(if tc \<le> maxc
        then case tryDecrypt L key parsed tc of
               Inl err \<Rightarrow> f L key parsed (tc + 1) maxc
             | Inr result \<Rightarrow> Some (Inr result)
        else Some (Inl ErrDecryptionFailed)) = Some y"
  show "\<exists>n. \<not> (tc + of_nat n \<le> maxc \<and> isl (tryDecrypt L key parsed (tc + of_nat n)))"
  proof (cases "tc \<le> maxc \<and> isl (tryDecrypt L key parsed tc)")
    case True
    with eq have "f L key parsed (tc + 1) maxc = Some y"
      by (auto simp: isl_def)
    from IH [OF this] obtain n where
      "\<not> (tc + 1 + of_nat n \<le> maxc \<and> isl (tryDecrypt L key parsed (tc + 1 + of_nat n)))"
      by blast
    then have "\<not> (tc + of_nat (Suc n) \<le> maxc \<and> isl (tryDecrypt L key parsed (tc + of_nat (Suc n))))"
      by (simp add: ac_simps)
    then show ?thesis by blast
  next
    case False
    then have "\<not> (tc + of_nat 0 \<le> maxc \<and> isl (tryDecrypt L key parsed (tc + of_nat 0)))"
      by simp
    then show ?thesis by blast
  qed
qed

lemma FindTimeCounter_loop_skip:
  assumes "\<forall>k<n. tc + of_nat k \<le> maxc \<and> \<not> FindTimeCounter_round L key parsed (tc + of_nat k)"
  shows "FindTimeCounter_loop L key parsed tc maxc = FindTimeCounter_loop L key parsed (tc + of_nat n) maxc"
  using assms
proof (induction n arbitrary: tc)
  case 0
  then show ?case by simp
next
  case (Suc n)
  from Suc.prems have first: "tc \<le> maxc" "\<not> FindTimeCounter_round L key parsed tc"
    by (auto dest: spec [of _ 0])
  have "\<forall>k<n. tc + 1 + of_nat k \<le> maxc \<and> \<not> FindTimeCounter_round L key parsed (tc + 1 + of_nat k)"
  proof (intro allI impI)
    fix k assume "k < n"
    then have "Suc k < Suc n" by simp
    with Suc.prems show "tc + 1 + of_nat k \<le> maxc \<and> \<not> FindTimeCounter_round L key parsed (tc + 1 + of_nat k)"
      by (metis add.assoc of_nat_Suc)
  qed
  from Suc.IH [OF this] have "FindTimeCounter_loop L key parsed (tc + 1) maxc
      = FindTimeCounter_loop L key parsed (tc + of_nat (Suc n)) maxc"
    by (simp add: add.assoc)
  moreover have "FindTimeCounter_loop L key parsed tc maxc = FindTimeCounter_loop L key parsed (tc + 1) maxc"
    using first by (subst FindTimeCounter_loop.simps) auto
  ultimately show ?case by simp
qed

lemma FindTimeCounter_loop_Some_stops:
  assumes "FindTimeCounter_loop L key parsed tc maxc = Some y"
  shows "\<exists>n. \<not> (tc + of_nat n \<le> maxc \<and> \<not> FindTimeCounter_round L key parsed (tc + of_nat n))"
proof (rule FindTimeCounter_loop.raw_induct
    [where P = "\<lambda>L key parsed tc maxc y.
        \<exists>n. \<not> (tc + of_nat n \<le> maxc \<and> \<not> FindTimeCounter_round L key parsed (tc + of_nat n))",
     OF _ assms])
  fix f L key parsed and tc maxc :: "32 word" and y
  assume IH: "\<And>L key parsed tc maxc y. f L key parsed tc maxc = Some y \<Longrightarrow>
      \<exists>n. \<not> (tc + of_nat n \<le> maxc \<and> \<not> FindTimeCounter_round L key parsed (tc + of_nat n))"
    and eq: "(if tc \<le> maxc
        then if FindTimeCounter_round L key parsed tc then Some (Inr tc)
             else f L key parsed (tc + 1) maxc
        else Some (Inl ErrDecryptionFailed)) = Some y"
  show "\<exists>n. \<not> (tc + of_nat n \<le> maxc \<and> \<not> FindTimeCounter_round L key parsed (tc + of_nat n))"
  proof (cases "tc \<le> maxc \<and> \<not> FindTimeCounter_round L key parsed tc")
    case True
    with eq have "f L key parsed (tc + 1) maxc = Some y"
      by auto
    from IH [OF this] obtain n where
      "\<not> (tc + 1 + of_nat n \<le> maxc \<and> \<not> FindTimeCounter_round L key parsed (tc + 1 + of_nat n))"
      by blast
    then have "\<not> (tc + of_nat (Suc n) \<le> maxc \<and> \<not> FindTimeCounter_round L key parsed (tc + of_nat (Suc n)))"
      by (simp add: ac_simps)
    then show ?thesis by blast
  next
    case False
    then have "\<not> (tc + of_nat 0 \<le> maxc \<and> \<not> FindTimeCounter_round L key parsed (tc + of_nat 0))"
      by simp
    then show ?thesis by blast
  qed
qed

lemma DeriveKey_ok:
  assumes "lib_ok L" and "length key = 16 \<or> length key = 32"
    and "n = 12 \<or> n = 16 \<or> n = 32"
  shows "\<exists>r. DeriveKey L key n label c = Inr r \<and> length r = unat n"
proof -
  from assms have ok: "aes_NewCipher L key" "cmac_New L key"
    by (auto simp: lib_ok_def)
  from assms(3) have n: "0 \<le> sint n" "16 * ((sint n + 15) div 16) \<le> maxAlloc"
      "nat (sint n) \<le> 16 * 2" "nat (sint n) = unat n"
    by (auto simp: maxAlloc_def)
  show ?thesis
    using SP800108CounterKDF_blocks [OF ok assms(2) n(1-3)] length_KDF_spec [OF n(3)] n(4)
    by (simp add: DeriveKey_def)
qed

lemma FullEncryptionKeyDerivation_ok:
  assumes "lib_ok L" and "length key = 16 \<or> length key = 32"
  shows "\<exists>encKey. FullEncryptionKeyDerivation L key tc s = Inr encKey \<and> length encKey = length key"
proof -
  have n: "(word_of_nat (length key) :: 64 word) = 12 \<or> (word_of_nat (length key) :: 64 word) = 16
      \<or> (word_of_nat (length key) :: 64 word) = 32"
    and u: "unat (word_of_nat (length key) :: 64 word) = length key"
    using assms(2) by auto
  obtain ik where ik: "DeriveKey L key (word_of_nat (length key)) ''EncryptionKey'' tc = Inr ik"
      "length ik = length key"
    using DeriveKey_ok [OF assms n] u by auto
  with assms(2) have iklen: "length ik = 16 \<or> length ik = 32"
    by simp
  from DeriveKey_ok [OF assms(1) iklen, of "word_of_nat (length key)" "''Key''" s] n u ik
  show ?thesis
    by (auto simp: FullEncryptionKeyDerivation_def DeriveEncryptionKeyIntermediate_def
          DeriveEncryptionKey_def)
qed

lemma FullNonceDerivation_ok:
  assumes "lib_ok L" and "length key = 16 \<or> length key = 32"
  shows "\<exists>nonce. FullNonceDerivation L key tc s = Inr nonce \<and> length nonce = 12"
proof -
  have n: "(word_of_nat (length key) :: 64 word) = 12 \<or> (word_of_nat (length key) :: 64 word) = 16
      \<or> (word_of_nat (length key) :: 64 word) = 32"
    and u: "unat (word_of_nat (length key) :: 64 word) = length key"
    using assms(2) by auto
  obtain nk where nk: "DeriveKey L key (word_of_nat (length key)) ''NonceKey'' tc = Inr nk"
      "length nk = length key"
    using DeriveKey_ok [OF assms n] u by auto
  with assms(2) have "length nk = 16 \<or> length nk = 32"
    by simp
  from DeriveKey_ok [OF assms(1) this, of 12 "''Nonce''" s] nk
  show ?thesis
    by (auto simp: FullNonceDerivation_def DeriveNonceKey_def DeriveNonce_def)
qed

lemma ComputeAuthTag_ok:
  assumes "lib_ok L" and "length key = 16 \<or> length key = 32"
  shows "ComputeAuthTag L key data = Inr (take 4 (mac_Sum L key data))"
  using assms by (auto simp: ComputeAuthTag_def AuthTagSize_def lib_ok_def)

lemma VerifyAuthTag_ok:
  assumes "lib_ok L" and "length key = 16 \<or> length key = 32" and "length tag = 4"
  shows "VerifyAuthTag L key data tag = Inr (tag = take 4 (mac_Sum L key data))"
  using assms(3) ComputeAuthTag_ok [OF assms(1,2), of data]
    ConstantTimeCompare_eq [of "take 4 (mac_Sum L key data)" tag]
  by (auto simp: VerifyAuthTag_def AuthTagSize_def)

lemma AESCTRDecrypt_ok:
  assumes "lib_ok L" and "length key = 16 \<or> length key = 32" and "length nonce = 12"
  shows "AESCTRDecrypt L key nonce ct
           = Inr (XORKeyStream (ctr_KeyStream L key (nonce @ [0, 0, 0, 0])) ct)"
  using assms
  by (auto simp: AESCTRDecrypt_def consts_defs lib_ok_def numeral_eq_Suc)

lemma tryDecrypt_eq:
  assumes L: "lib_ok L" and key: "length key = 16 \<or> length key = 32"
    and raw: "6 \<le> length (RawPacket parsed)" and tag: "length (AuthTag parsed) = 4"
    and ek: "FullEncryptionKeyDerivation L key tc (ucast (SequenceNumber parsed)) = Inr encKey"
    and nonce: "FullNonceDerivation L key tc (ucast (SequenceNumber parsed)) = Inr nonce"
  shows "tryDecrypt L key parsed tc =
     (if AuthTag parsed = take 4 (mac_Sum L encKey (take 6 (RawPacket parsed)))
      then Inr \<lparr>Payload = XORKeyStream (ctr_KeyStream L encKey (nonce @ [0, 0, 0, 0]))
                             (EncryptedPayload parsed),
                TimeCounter = tc, SeqCounter = ucast (SequenceNumber parsed)\<rparr>
      else Inl ErrAuthenticationFail)"
proof -
  from FullEncryptionKeyDerivation_ok [OF L key, of tc "ucast (SequenceNumber parsed)"] ek
  have eklen: "length encKey = 16 \<or> length encKey = 32"
    using key by auto
  from FullNonceDerivation_ok [OF L key, of tc "ucast (SequenceNumber parsed)"] nonce
  have nlen: "length nonce = 12"
    by auto
  show ?thesis
    using raw ek nonce
    by (simp add: tryDecrypt_def Let_def AuthTagOffset_def HeaderSize_def ReservedSize_def
          ComputeAuthTag_ok [OF L eklen] VerifyAuthTag_ok [OF L eklen tag]
          AESCTRDecrypt_ok [OF L eklen nlen])
qed

lemma FindTimeCounter_round_eq:
  assumes L: "lib_ok L" and key: "length key = 16 \<or> length key = 32"
    and tag: "length (AuthTag parsed) = 4"
    and ek: "FullEncryptionKeyDerivation L key tc (ucast (SequenceNumber parsed)) = Inr encKey"
  shows "FindTimeCounter_round L key parsed tc
           \<longleftrightarrow> AuthTag parsed = take 4 (mac_Sum L encKey (take 6 (RawPacket parsed)))"
proof -
  from FullEncryptionKeyDerivation_ok [OF L key, of tc "ucast (SequenceNumber parsed)"] ek
  have eklen: "length encKey = 16 \<or> length encKey = 32"
    using key by auto
  show ?thesis
    using ek
    by (simp add: FindTimeCounter_round_def Let_def AuthTagOffset_def HeaderSize_def
          ReservedSize_def VerifyAuthTag_ok [OF L eklen tag])
qed

lemma candidate_agree:
  assumes L: "lib_ok L" and key: "length key = 16 \<or> length key = 32"
    and raw: "6 \<le> length (RawPacket parsed)" and tag: "length (AuthTag parsed) = 4"
  shows "(FindTimeCounter_round L key parsed tc \<longrightarrow>
            (\<exists>p. tryDecrypt L key parsed tc
                   = Inr \<lparr>Payload = p, TimeCounter = tc, SeqCounter = ucast (SequenceNumber parsed)\<rparr>)) \<and>
         (\<not> FindTimeCounter_round L key parsed tc \<longrightarrow>
            tryDecrypt L key parsed tc = Inl ErrAuthenticationFail)"
proof -
  obtain encKey where ek:
    "FullEncryptionKeyDerivation L key tc (ucast (SequenceNumber parsed)) = Inr encKey"
    using FullEncryptionKeyDerivation_ok [OF L key] by blast
  obtain nonce where nonce:
    "FullNonceDerivation L key tc (ucast (SequenceNumber parsed)) = Inr nonce"
    using FullNonceDerivation_ok [OF L key] by blast
  show ?thesis
    by (simp add: tryDecrypt_eq [OF L key raw tag ek nonce]
          FindTimeCounter_round_eq [OF L key tag ek])
qed

lemma loops_agree:
  assumes L: "lib_ok L" and key: "length key = 16 \<or> length key = 32"
    and raw: "6 \<le> length (RawPacket parsed)" and tag: "length (AuthTag parsed) = 4"
  shows "FindTimeCounter_loop L key parsed tc maxc
           = map_option (map_sum id TimeCounter) (Decrypt_loop L key parsed tc maxc)"
proof -
  note ca = candidate_agree [OF L key raw tag]
  have isl: "isl (tryDecrypt L key parsed c) \<longleftrightarrow> \<not> FindTimeCounter_round L key parsed c" for c
    using ca [of c] by (cases "FindTimeCounter_round L key parsed c") auto
  let ?cont = "\<lambda>n. tc + of_nat n \<le> maxc \<and> \<not> FindTimeCounter_round L key parsed (tc + of_nat n)"
  show ?thesis
  proof (cases "\<exists>n. \<not> ?cont n")
    case True
    then obtain n where n: "\<not> ?cont n" "\<forall>k<n. ?cont k"
      using exists_least_iff [of "\<lambda>n. \<not> ?cont n"] by auto
    have f: "FindTimeCounter_loop L key parsed tc maxc
               = FindTimeCounter_loop L key parsed (tc + of_nat n) maxc"
      by (rule FindTimeCounter_loop_skip) (use n(2) in blast)
    have d: "Decrypt_loop L key parsed tc maxc = Decrypt_loop L key parsed (tc + of_nat n) maxc"
      by (rule Decrypt_loop_skip) (use n(2) isl in blast)
    show ?thesis
    proof (cases "tc + of_nat n \<le> maxc")
      case le: True
      with n(1) have r: "FindTimeCounter_round L key parsed (tc + of_nat n)"
        by simp
      with ca [of "tc + of_nat n"] obtain p where
        "tryDecrypt L key parsed (tc + of_nat n)
           = Inr \<lparr>Payload = p, TimeCounter = tc + of_nat n,
                   SeqCounter = ucast (SequenceNumber parsed)\<rparr>"
        by blast
      then show ?thesis
        unfolding f d using le r
        by (subst FindTimeCounter_loop.simps, subst Decrypt_loop.simps) simp
    next
      case False
      then show ?thesis
        unfolding f d
        by (subst FindTimeCounter_loop.simps, subst Decrypt_loop.simps) simp
    qed
  next
    case False
    have "FindTimeCounter_loop L key parsed tc maxc = None"
      using FindTimeCounter_loop_Some_stops [of L key parsed tc maxc] False
      by (cases "FindTimeCounter_loop L key parsed tc maxc") auto
    moreover have "Decrypt_loop L key parsed tc maxc = None"
      using Decrypt_loop_Some_stops [of L key parsed tc maxc] False isl
      by (cases "Decrypt_loop L key parsed tc maxc") auto
    ultimately show ?thesis
      by simp
  qed
qed

lemma ParsePacket_Inr_D:
  assumes "ParsePacket payload = Inr parsed"
  shows "10 \<le> length payload" and "RawPacket parsed = payload" and "length (AuthTag parsed) = 4"
    and "AuthTag parsed = take 4 (drop 6 payload)" and "EncryptedPayload parsed = drop 10 payload"
    and "SequenceNumber parsed = BigEndian_Uint16 [payload ! 0, payload ! 1] AND 0x3FF"
proof -
  show ge: "10 \<le> length payload"
    using assms by (cases "length payload < 10") (simp_all add: ParsePacket_short)
  from ParsePacket_ok [OF ge] assms
  have p: "parsed = \<lparr>SequenceNumber = BigEndian_Uint16 [payload ! 0, payload ! 1] AND 0x3FF,
          AuthTag = take 4 (drop 6 payload),
          EncryptedPayload = drop 10 payload, RawPacket = payload\<rparr>"
    by simp
  show "RawPacket parsed = payload" "length (AuthTag parsed) = 4"
    "AuthTag parsed = take 4 (drop 6 payload)" "EncryptedPayload parsed = drop 10 payload"
    "SequenceNumber parsed = BigEndian_Uint16 [payload ! 0, payload ! 1] AND 0x3FF"
    using ge by (simp_all add: p)
qed

lemma searches_agree:
  assumes "lib_ok L"
  shows "FindTimeCounter L now key packet opts
           = map_option (map_sum id TimeCounter) (Decrypt L now key packet opts)"
proof (cases "length key = 16 \<or> length key = 32")
  case False
  then show ?thesis
    by (simp add: FindTimeCounter_def Decrypt_def consts_defs)
next
  case key: True
  show ?thesis
  proof (cases "ParsePacket (pkt_Payload packet)")
    case (Inl e)
    with key show ?thesis
      by (auto simp: FindTimeCounter_def Decrypt_def consts_defs)
  next
    case (Inr parsed)
    from ParsePacket_Inr_D [OF Inr] have "6 \<le> length (RawPacket parsed)" "length (AuthTag parsed) = 4"
      by simp_all
    from loops_agree [OF assms key this] Inr key show ?thesis
      by (auto simp: FindTimeCounter_def Decrypt_def consts_defs Let_def)
  qed
qed

text \<open>
  Claim C7. With libraries that keep their contract, \<^verbatim>\<open>FindTimeCounter\<close> and
  \<^verbatim>\<open>Decrypt\<close> agree on every key, packet and list of options:
  \<^verbatim>\<open>FindTimeCounter\<close> returns the counter \<open>tc\<close> exactly when \<^verbatim>\<open>Decrypt\<close> returns a
  result whose \<open>TimeCounter\<close> is \<open>tc\<close>, it fails with \<^verbatim>\<open>ErrDecryptionFailed\<close> exactly when
  \<^verbatim>\<open>Decrypt\<close> does, with the same error in every other case, and it does not return
  exactly when \<^verbatim>\<open>Decrypt\<close> does not.
\<close>

theorem FindTimeCounter_agrees_with_Decrypt:
  assumes "lib_ok L"
  shows "FindTimeCounter L now key packet opts
           = map_option (map_sum id TimeCounter) (Decrypt L now key packet opts) \<and>
         (FindTimeCounter L now key packet opts = Some (Inr tc) \<longleftrightarrow>
            (\<exists>r. Decrypt L now key packet opts = Some (Inr r) \<and> TimeCounter r = tc)) \<and>
         (FindTimeCounter L now key packet opts = Some (Inl ErrDecryptionFailed) \<longleftrightarrow>
            Decrypt L now key packet opts = Some (Inl ErrDecryptionFailed)) \<and>
         (FindTimeCounter L now key packet opts = None \<longleftrightarrow>
            Decrypt L now key packet opts = None)"
proof -
  note eq = searches_agree [OF assms, of now key packet opts]
  show ?thesis
  proof (cases "Decrypt L now key packet opts")
    case None
    with eq show ?thesis
      by simp
  next
    case (Some y)
    with eq show ?thesis
      by (cases y) auto
  qed
qed

lemma unat_plus_one: "unat (w + 1) = Suc (unat w)" if "w \<noteq> - 1" for w :: "32 word"
proof -
  from that have "1 + w \<noteq> 0"
    by (simp add: eq_neg_iff_add_eq_0 add.commute)
  then show ?thesis
    by (simp add: unatSuc add.commute)
qed

lemma Decrypt_loop_first:
  assumes "lo \<le> T" and "T \<le> hi" and "tryDecrypt L key parsed T = Inr r"
    and "\<forall>c. lo \<le> c \<and> c < T \<longrightarrow> isl (tryDecrypt L key parsed c)"
  shows "Decrypt_loop L key parsed lo hi = Some (Inr r)"
  using assms(1,4)
proof (induction "unat T - unat lo" arbitrary: lo)
  case 0
  then have "lo = T"
    by (simp add: word_le_nat_alt word_unat_eq_iff)
  with assms(2,3) show ?case
    by (subst Decrypt_loop.simps) simp
next
  case (Suc n)
  then have lt: "lo < T"
    by (simp add: word_less_nat_alt)
  with assms(2) have le: "lo \<le> hi"
    by simp
  from lt Suc.prems(2) have fail: "isl (tryDecrypt L key parsed lo)"
    by simp
  have step: "lo + 1 \<le> T"
    using lt by (rule inc_le)
  have "lo \<noteq> - 1"
    using lt word_order.extremum_strict [of T] by auto
  then have lo1: "unat (lo + 1) = unat lo + 1"
    by (simp add: unat_plus_one)
  have "Decrypt_loop L key parsed (lo + 1) hi = Some (Inr r)"
  proof (rule Suc.hyps(1))
    show "n = unat T - unat (lo + 1)"
      using Suc.hyps(2) lo1 by simp
    show "lo + 1 \<le> T" by (rule step)
    show "\<forall>c. lo + 1 \<le> c \<and> c < T \<longrightarrow> isl (tryDecrypt L key parsed c)"
      using Suc.prems(2) lo1 by (auto simp: word_le_nat_alt)
  qed
  with le fail show ?case
    by (subst Decrypt_loop.simps) (auto simp: isl_def)
qed

lemma Decrypt_loop_exhaust:
  assumes "hi \<noteq> - 1"
    and "\<forall>c. lo \<le> c \<and> c \<le> hi \<longrightarrow> isl (tryDecrypt L key parsed c)"
  shows "Decrypt_loop L key parsed lo hi = Some (Inl ErrDecryptionFailed)"
  using assms(2)
proof (induction "Suc (unat hi) - unat lo" arbitrary: lo)
  case 0
  then have "\<not> lo \<le> hi"
    by (simp add: word_le_nat_alt)
  then show ?case
    by (subst Decrypt_loop.simps) simp
next
  case (Suc n)
  then have le: "lo \<le> hi"
    by (simp add: word_le_nat_alt)
  with assms(1) have "lo \<noteq> - 1"
    by (metis word_order.extremum_unique)
  then have lo1: "unat (lo + 1) = unat lo + 1"
    by (simp add: unat_plus_one)
  from le Suc.prems have fail: "isl (tryDecrypt L key parsed lo)"
    by simp
  have "Decrypt_loop L key parsed (lo + 1) hi = Some (Inl ErrDecryptionFailed)"
  proof (rule Suc.hyps(1))
    show "n = Suc (unat hi) - unat (lo + 1)"
      using Suc.hyps(2) lo1 by simp
    show "\<forall>c. lo + 1 \<le> c \<and> c \<le> hi \<longrightarrow> isl (tryDecrypt L key parsed c)"
      using Suc.prems lo1 by (auto simp: word_le_nat_alt)
  qed
  with le fail show ?case
    by (subst Decrypt_loop.simps) (auto simp: isl_def)
qed

subsection \<open>A packet assembled and taken apart\<close>

lemma length_XORKeyStream [simp]: "length (XORKeyStream ks xs) = length xs"
  by (simp add: XORKeyStream_def)

lemma nth_XORKeyStream: "i < length xs \<Longrightarrow> XORKeyStream ks xs ! i = xs ! i XOR ks i"
  by (simp add: XORKeyStream_def)

lemma XORKeyStream_twice: "XORKeyStream ks (XORKeyStream ks xs) = xs"
proof (rule nth_equalityI)
  show "length (XORKeyStream ks (XORKeyStream ks xs)) = length xs"
    by simp
next
  fix i
  assume "i < length (XORKeyStream ks (XORKeyStream ks xs))"
  then have "i < length xs"
    by simp
  then have "XORKeyStream ks (XORKeyStream ks xs) ! i = (xs ! i XOR ks i) XOR ks i"
    by (simp add: nth_XORKeyStream)
  also have "\<dots> = xs ! i"
    by (simp add: xor.assoc)
  finally show "XORKeyStream ks (XORKeyStream ks xs) ! i = xs ! i" .
qed

lemma unat_low_byte: "unat (ucast (S AND 0xFF :: 32 word) :: byte) = unat S mod 256"
proof -
  have "S AND 0xFF = take_bit 8 S"
    by (simp add: take_bit_eq_mask mask_eq_exp_minus_1)
  then have "unat (S AND 0xFF) = take_bit 8 (unat S)"
    by (simp only: unsigned_take_bit_eq)
  then show ?thesis
    by (simp add: unsigned_ucast_eq take_bit_eq_mod)
qed

lemma unat_high_byte: "unat (ucast (drop_bit 8 (S :: 32 word)) :: byte) = unat S div 256 mod 256"
  by (simp add: unsigned_ucast_eq unsigned_drop_bit_eq take_bit_eq_mod drop_bit_eq_div unat_div)

lemma header_sequence:
  assumes "S \<le> 1023"
  shows "ucast (BigEndian_Uint16 [ucast (drop_bit 8 S), ucast (S AND 0xFF)] AND 0x3FF) = (S :: 32 word)"
proof -
  from assms have S: "unat S \<le> 1023"
    by (simp add: word_le_nat_alt)
  let ?w = "BigEndian_Uint16 [ucast (drop_bit 8 S), ucast (S AND 0xFF)] AND 0x3FF"
  have "unat ?w = (256 * (unat S div 256 mod 256) + unat S mod 256) mod 1024"
    by (simp only: unat_mask_3FF BigEndian_Uint16_unat unat_low_byte unat_high_byte)
  also have "\<dots> = unat S"
    using S by simp
  finally have "unat ?w = unat S" .
  moreover have "unat (ucast ?w :: 32 word) = unat ?w"
    using unsigned_less [of ?w, where 'a = nat]
    by (simp add: unsigned_ucast_eq take_bit_nat_eq_self)
  ultimately show ?thesis
    by (simp add: word_unat_eq_iff)
qed

lemma BuildPacket_eq:
  assumes L: "lib_ok L" and key: "length key = 16 \<or> length key = 32"
    and ek: "FullEncryptionKeyDerivation L key T S = Inr encKey"
    and nonce: "FullNonceDerivation L key T S = Inr nonce"
  shows "BuildPacket L key T S P =
     Inr (packet_header S @ take 4 (mac_Sum L encKey (packet_header S))
            @ XORKeyStream (ctr_KeyStream L encKey (nonce @ [0, 0, 0, 0])) P)"
proof -
  from FullEncryptionKeyDerivation_ok [OF L key, of T S] ek
  have eklen: "length encKey = 16 \<or> length encKey = 32"
    using key by auto
  from FullNonceDerivation_ok [OF L key, of T S] nonce
  have nlen: "length nonce = 12"
    by auto
  show ?thesis
    by (simp add: BuildPacket_def ek nonce AESCTREncrypt_def AESCTRDecrypt_ok [OF L eklen nlen]
          ComputeAuthTag_ok [OF L eklen] Let_def)
qed

lemma BuildPacket_ok:
  assumes "lib_ok L" and "length key = 16 \<or> length key = 32"
  shows "\<exists>payload. BuildPacket L key T S P = Inr payload \<and> length payload = 10 + length P"
proof -
  obtain encKey where ek: "FullEncryptionKeyDerivation L key T S = Inr encKey"
    using FullEncryptionKeyDerivation_ok [OF assms] by blast
  obtain nonce where nonce: "FullNonceDerivation L key T S = Inr nonce"
    using FullNonceDerivation_ok [OF assms] by blast
  show ?thesis
    by (simp add: BuildPacket_eq [OF assms ek nonce] packet_header_def)
qed

lemma tryDecrypt_built:
  assumes L: "lib_ok L" and key: "length key = 16 \<or> length key = 32" and S: "S \<le> 1023"
    and built: "BuildPacket L key T S P = Inr payload"
    and parsed: "ParsePacket payload = Inr parsed"
  shows "tryDecrypt L key parsed T = Inr \<lparr>Payload = P, TimeCounter = T, SeqCounter = S\<rparr>"
proof -
  obtain encKey where ek: "FullEncryptionKeyDerivation L key T S = Inr encKey"
    using FullEncryptionKeyDerivation_ok [OF L key] by blast
  obtain nonce where nonce: "FullNonceDerivation L key T S = Inr nonce"
    using FullNonceDerivation_ok [OF L key] by blast
  let ?tag = "take 4 (mac_Sum L encKey (packet_header S))"
  let ?ct = "XORKeyStream (ctr_KeyStream L encKey (nonce @ [0, 0, 0, 0])) P"
  have payload: "payload = packet_header S @ ?tag @ ?ct"
    using built BuildPacket_eq [OF L key ek nonce, of P] by simp
  note pp = ParsePacket_Inr_D [OF parsed]
  have hdr: "take 6 payload = packet_header S"
    by (simp add: payload packet_header_def)
  have tag: "AuthTag parsed = ?tag"
    by (simp add: pp(4) payload packet_header_def)
  have ct: "EncryptedPayload parsed = ?ct"
    by (simp add: pp(5) payload packet_header_def)
  have seq: "ucast (SequenceNumber parsed) = S"
    using header_sequence [OF S] by (simp add: pp(6) payload packet_header_def)
  have raw: "6 \<le> length (RawPacket parsed)"
    using pp(1,2) by simp
  show ?thesis
    using tryDecrypt_eq [OF L key raw pp(3), of T encKey nonce] ek nonce
    by (simp add: seq pp(2) hdr tag ct XORKeyStream_twice)
qed

subsection \<open>The window\<close>

lemma uint_ucast_window:
  fixes W :: "64 word"
  assumes "0 \<le> sint W" and "sint W < 2 ^ 32"
  shows "uint (ucast W :: 32 word) = sint W"
proof -
  have "sint W < 2 ^ 64"
    using assms(2) by simp
  with assms(1) have "uint W = sint W"
    by (simp add: uint_sint take_bit_int_eq_self)
  with assms show ?thesis
    by (simp add: unsigned_ucast_eq take_bit_int_eq_self)
qed

lemma window_bounds:
  fixes B :: "32 word" and W :: "64 word"
  assumes "0 \<le> sint W" and "sint W \<le> uint B" and "uint B + sint W < 2 ^ 32"
  shows "uint (B - ucast W) = uint B - sint W" and "uint (B + ucast W) = uint B + sint W"
proof -
  have "sint W < 2 ^ 32"
    using assms(3) uint_nonnegative [of B] by linarith
  with assms(1) have W: "uint (ucast W :: 32 word) = sint W"
    by (rule uint_ucast_window)
  show "uint (B - ucast W) = uint B - sint W"
    using uint_sub_lem [of "ucast W" B] assms(2) by (simp add: W)
  show "uint (B + ucast W) = uint B + sint W"
    using uint_add_lem [of B "ucast W"] assms(3) by (simp add: W)
qed

lemma window_underflow_ends:
  fixes B :: "32 word" and W :: "64 word"
  assumes "uint B < sint W" and "sint W < 2 ^ 31"
  shows "uint (B - ucast W) = uint B - sint W + 2 ^ 32"
    and "uint (B + ucast W) = uint B + sint W"
proof -
  have p32: "(2::int) ^ 32 = 4294967296"
    by simp
  have W31: "sint W < 2147483648"
    using assms(2) by simp
  have B0: "0 \<le> uint B" and B32: "uint B < 4294967296"
    using uint_nonnegative [of B] uint_lt2p [of B] by simp_all
  have "0 \<le> sint W" and "sint W < 2 ^ 32"
    unfolding p32 using assms(1) W31 B0 by linarith+
  then have W: "uint (ucast W :: 32 word) = sint W"
    by (rule uint_ucast_window)
  have "uint B + uint (ucast W :: 32 word) < 2 ^ 32"
    unfolding W p32 using assms(1) W31 by linarith
  then show "uint (B + ucast W) = uint B + sint W"
    using uint_add_lem [of B "ucast W"] by (simp add: W)
  have "uint (B - ucast W) = (uint B - sint W) mod 2 ^ 32"
    by (simp add: uint_word_ariths W)
  also have "\<dots> = (uint B - sint W + 2 ^ 32) mod 2 ^ 32"
    by simp
  also have "\<dots> = uint B - sint W + 2 ^ 32"
  proof (rule mod_pos_pos_trivial)
    show "0 \<le> uint B - sint W + 2 ^ 32"
      unfolding p32 using W31 B0 by linarith
    show "uint B - sint W + 2 ^ 32 < 2 ^ 32"
      using assms(1) by linarith
  qed
  finally show "uint (B - ucast W) = uint B - sint W + 2 ^ 32" .
qed

lemma window_underflow:
  fixes B :: "32 word" and W :: "64 word"
  assumes "uint B < sint W" and "sint W < 2 ^ 31"
  shows "\<not> B - ucast W \<le> B + ucast W"
proof -
  have p32: "(2::int) ^ 32 = 4294967296"
    by simp
  have W31: "sint W < 2147483648"
    using assms(2) by simp
  note ends = window_underflow_ends [OF assms]
  have "uint B + sint W < uint B - sint W + 2 ^ 32"
    unfolding p32 using W31 by linarith
  then show ?thesis
    by (simp only: word_le_def ends not_le)
qed

lemma Decrypt_unfold:
  assumes "length key = 16 \<or> length key = 32" and "ParsePacket (pkt_Payload packet) = Inr parsed"
    and "TimeToCounter (ExpectedTime (resolve_options now packet opts)) = B"
    and "SearchWindowDays (resolve_options now packet opts) = W"
  shows "Decrypt L now key packet opts = Decrypt_loop L key parsed (B - ucast W) (B + ucast W)"
  using assms by (auto simp: Decrypt_def consts_defs Let_def)

lemma FindTimeCounter_unfold:
  assumes "length key = 16 \<or> length key = 32" and "ParsePacket (pkt_Payload packet) = Inr parsed"
    and "TimeToCounter (ExpectedTime (resolve_options now packet opts)) = B"
    and "SearchWindowDays (resolve_options now packet opts) = W"
  shows "FindTimeCounter L now key packet opts
           = FindTimeCounter_loop L key parsed (B - ucast W) (B + ucast W)"
  using assms by (auto simp: FindTimeCounter_def consts_defs Let_def)

lemma DecryptWithKnownCounter_unfold:
  assumes "length key = 16 \<or> length key = 32" and "ParsePacket (pkt_Payload packet) = Inr parsed"
  shows "DecryptWithKnownCounter L key packet c = tryDecrypt L key parsed c"
  using assms by (auto simp: DecryptWithKnownCounter_def consts_defs)


lemma isl_iff: "isl x \<longleftrightarrow> (\<exists>e. x = Inl e)"
  by (cases x) auto


lemma Decrypt_first_known:
  assumes key: "length key = 16 \<or> length key = 32"
    and len: "10 \<le> length (pkt_Payload packet)"
    and B: "TimeToCounter (ExpectedTime (resolve_options now packet opts)) = B"
    and W: "SearchWindowDays (resolve_options now packet opts) = W"
    and nowrap: "0 \<le> sint W" "sint W \<le> uint B" "uint B + sint W < 2 ^ 32"
    and window: "uint B - sint W \<le> uint T" "uint T \<le> uint B + sint W"
    and known: "DecryptWithKnownCounter L key packet T = Inr r"
    and earlier: "\<forall>c. uint B - sint W \<le> uint c \<and> c < T \<longrightarrow>
                   (\<exists>e. DecryptWithKnownCounter L key packet c = Inl e)"
  shows "Decrypt L now key packet opts = Some (Inr r)"
proof -
  obtain parsed where parsed: "ParsePacket (pkt_Payload packet) = Inr parsed"
    using ParsePacket_ok [OF len] by blast
  note wb = window_bounds [OF nowrap]
  note kn = DecryptWithKnownCounter_unfold [OF key parsed]
  have "Decrypt_loop L key parsed (B - ucast W) (B + ucast W) = Some (Inr r)"
  proof (rule Decrypt_loop_first)
    show "B - ucast W \<le> T" "T \<le> B + ucast W"
      using window by (simp_all add: word_le_def wb)
    show "tryDecrypt L key parsed T = Inr r"
      using known by (simp add: kn)
    show "\<forall>c. B - ucast W \<le> c \<and> c < T \<longrightarrow> isl (tryDecrypt L key parsed c)"
      using earlier by (simp add: word_le_def wb kn isl_iff)
  qed
  then show ?thesis
    by (simp add: Decrypt_unfold [OF key parsed B W])
qed

lemma Decrypt_none_known:
  assumes key: "length key = 16 \<or> length key = 32"
    and len: "10 \<le> length (pkt_Payload packet)"
    and B: "TimeToCounter (ExpectedTime (resolve_options now packet opts)) = B"
    and W: "SearchWindowDays (resolve_options now packet opts) = W"
    and nowrap: "0 \<le> sint W" "sint W \<le> uint B" "uint B + sint W < 2 ^ 32 - 1"
    and none: "\<forall>c. uint B - sint W \<le> uint c \<and> uint c \<le> uint B + sint W \<longrightarrow>
                 (\<exists>e. DecryptWithKnownCounter L key packet c = Inl e)"
  shows "Decrypt L now key packet opts = Some (Inl ErrDecryptionFailed)"
proof -
  obtain parsed where parsed: "ParsePacket (pkt_Payload packet) = Inr parsed"
    using ParsePacket_ok [OF len] by blast
  have nw: "uint B + sint W < 2 ^ 32"
    using nowrap(3) by simp
  note wb = window_bounds [OF nowrap(1,2) nw]
  note kn = DecryptWithKnownCounter_unfold [OF key parsed]
  have "B + ucast W \<noteq> - 1"
  proof
    assume "B + ucast W = - 1"
    then have "uint (B + ucast W) = 2 ^ 32 - 1"
      by (simp add: unsigned_minus_1_eq_mask mask_eq_exp_minus_1)
    with nowrap(3) show False
      by (simp add: wb)
  qed
  moreover have "\<forall>c. B - ucast W \<le> c \<and> c \<le> B + ucast W \<longrightarrow> isl (tryDecrypt L key parsed c)"
    using none by (simp add: word_le_def wb kn isl_iff)
  ultimately show ?thesis
    by (simp add: Decrypt_unfold [OF key parsed B W] Decrypt_loop_exhaust)
qed

lemma DecryptWithKnownCounter_built:
  assumes L: "lib_ok L" and key: "length key = 16 \<or> length key = 32" and S: "S \<le> 1023"
    and built: "BuildPacket L key T S P = Inr (pkt_Payload packet)"
  shows "10 \<le> length (pkt_Payload packet)"
    and "DecryptWithKnownCounter L key packet T
           = Inr \<lparr>Payload = P, TimeCounter = T, SeqCounter = S\<rparr>"
proof -
  from BuildPacket_ok [OF L key, of T S P] built
  show len: "10 \<le> length (pkt_Payload packet)"
    by auto
  then obtain parsed where parsed: "ParsePacket (pkt_Payload packet) = Inr parsed"
    using ParsePacket_ok by blast
  show "DecryptWithKnownCounter L key packet T
           = Inr \<lparr>Payload = P, TimeCounter = T, SeqCounter = S\<rparr>"
    using tryDecrypt_built [OF L key S built parsed]
    by (simp add: DecryptWithKnownCounter_unfold [OF key parsed])
qed



text \<open>
  Claim C10. When the base counter \<open>B\<close> is smaller than the window \<open>W\<close>, and \<open>W\<close> is below
  \<open>2^31\<close>, the subtraction \<^verbatim>\<open>baseCounter - uint32(W)\<close> wraps to \<open>B - W + 2^32\<close>, which is
  above the upper end \<open>B + W\<close>: the loop runs no round, and \<^verbatim>\<open>Decrypt\<close> and
  \<^verbatim>\<open>FindTimeCounter\<close> both fail with \<^verbatim>\<open>ErrDecryptionFailed\<close> whatever the packet holds,
  a packet of the counter \<open>B\<close> itself included.
\<close>

theorem search_window_underflow:
  assumes key: "length key = 16 \<or> length key = 32"
    and len: "10 \<le> length (pkt_Payload packet)"
    and B: "TimeToCounter (ExpectedTime (resolve_options now packet opts)) = B"
    and W: "SearchWindowDays (resolve_options now packet opts) = W"
    and small: "uint B < sint W" and bound: "sint W < 2 ^ 31"
  shows "uint (B - ucast W) = uint B - sint W + 2 ^ 32 \<and>
         uint (B + ucast W) = uint B + sint W \<and>
         \<not> B - ucast W \<le> B + ucast W \<and>
         Decrypt L now key packet opts = Some (Inl ErrDecryptionFailed) \<and>
         FindTimeCounter L now key packet opts = Some (Inl ErrDecryptionFailed)"
proof -
  obtain parsed where parsed: "ParsePacket (pkt_Payload packet) = Inr parsed"
    using ParsePacket_ok [OF len] by blast
  note ends = window_underflow_ends [OF small bound]
  note empty = window_underflow [OF small bound]
  have "Decrypt_loop L key parsed (B - ucast W) (B + ucast W) = Some (Inl ErrDecryptionFailed)"
    using empty by (subst Decrypt_loop.simps) simp
  then have dec: "Decrypt L now key packet opts = Some (Inl ErrDecryptionFailed)"
    by (simp add: Decrypt_unfold [OF key parsed B W])
  have "FindTimeCounter_loop L key parsed (B - ucast W) (B + ucast W)
          = Some (Inl ErrDecryptionFailed)"
    using empty by (subst FindTimeCounter_loop.simps) simp
  then have find: "FindTimeCounter L now key packet opts = Some (Inl ErrDecryptionFailed)"
    by (simp add: FindTimeCounter_unfold [OF key parsed B W])
  show ?thesis
    by (intro conjI ends empty dec find)
qed

subsection \<open>Errors of the searches\<close>




text \<open>
  The panics of the model are out of the engine's reach: the lengths it asks of the key
  derivation are 12, 16 and 32, and a packet that \<^verbatim>\<open>ParsePacket\<close> accepted has its six
  header bytes. So no error of a candidate is a panic, and the loops, which go on after
  an error, never go on after a panic.
\<close>

lemma DeriveKey_no_panic:
  assumes n: "n = 12 \<or> n = 16 \<or> n = 32"
  shows "(\<forall>e. DeriveKey L key n label c = Inl e \<longrightarrow> \<not> panicked e) \<and>
         (\<forall>r. DeriveKey L key n label c = Inr r \<longrightarrow> length r = unat n)"
proof (cases "(length key = 16 \<or> length key = 32) \<and> aes_NewCipher L key \<and> cmac_New L key")
  case True
  from n have b: "0 \<le> sint n" "16 * ((sint n + 15) div 16) \<le> maxAlloc"
      "nat (sint n) \<le> 16 * 2" "nat (sint n) = unat n"
    by (auto simp: maxAlloc_def)
  from True have ok: "aes_NewCipher L key" "cmac_New L key" "length key = 16 \<or> length key = 32"
    by simp_all
  show ?thesis
    using SP800108CounterKDF_blocks [OF ok b(1-3)] length_KDF_spec [OF b(3)] b(4)
    by (simp add: DeriveKey_def)
next
  case False
  then show ?thesis
    by (auto simp: DeriveKey_def SP800108CounterKDF_def)
qed

lemma FullEncryptionKeyDerivation_no_panic:
  assumes "FullEncryptionKeyDerivation L key tc s = Inl e"
  shows "\<not> panicked e"
proof (cases "length key = 16 \<or> length key = 32")
  case False
  with assms show ?thesis
    by (auto simp: FullEncryptionKeyDerivation_def DeriveEncryptionKeyIntermediate_def
          DeriveKey_def SP800108CounterKDF_def)
next
  case key: True
  then have n: "(word_of_nat (length key) :: 64 word) = 12 \<or>
      (word_of_nat (length key) :: 64 word) = 16 \<or> (word_of_nat (length key) :: 64 word) = 32"
    and u: "unat (word_of_nat (length key) :: 64 word) = length key"
    by auto
  note first = DeriveKey_no_panic [OF n, of L key "''EncryptionKey''" tc]
  show ?thesis
  proof (cases "DeriveKey L key (word_of_nat (length key)) ''EncryptionKey'' tc")
    case (Inl e')
    with assms first show ?thesis
      by (auto simp: FullEncryptionKeyDerivation_def DeriveEncryptionKeyIntermediate_def)
  next
    case (Inr ik)
    with first u have "length ik = length key"
      by simp
    with n have n': "(word_of_nat (length ik) :: 64 word) = 12 \<or>
        (word_of_nat (length ik) :: 64 word) = 16 \<or> (word_of_nat (length ik) :: 64 word) = 32"
      by simp
    from DeriveKey_no_panic [OF n', of L ik "''Key''" s] assms Inr show ?thesis
      by (auto simp: FullEncryptionKeyDerivation_def DeriveEncryptionKeyIntermediate_def
            DeriveEncryptionKey_def)
  qed
qed

lemma FullNonceDerivation_no_panic:
  assumes "FullNonceDerivation L key tc s = Inl e"
  shows "\<not> panicked e"
proof (cases "length key = 16 \<or> length key = 32")
  case False
  with assms show ?thesis
    by (auto simp: FullNonceDerivation_def DeriveNonceKey_def DeriveKey_def SP800108CounterKDF_def)
next
  case key: True
  then have n: "(word_of_nat (length key) :: 64 word) = 12 \<or>
      (word_of_nat (length key) :: 64 word) = 16 \<or> (word_of_nat (length key) :: 64 word) = 32"
    by auto
  note first = DeriveKey_no_panic [OF n, of L key "''NonceKey''" tc]
  show ?thesis
  proof (cases "DeriveKey L key (word_of_nat (length key)) ''NonceKey'' tc")
    case (Inl e')
    with assms first show ?thesis
      by (auto simp: FullNonceDerivation_def DeriveNonceKey_def)
  next
    case (Inr nk)
    have "(12 :: 64 word) = 12 \<or> (12 :: 64 word) = 16 \<or> (12 :: 64 word) = 32"
      by simp
    from DeriveKey_no_panic [OF this, of L nk "''Nonce''" s] assms Inr show ?thesis
      by (auto simp: FullNonceDerivation_def DeriveNonceKey_def DeriveNonce_def)
  qed
qed

lemma ComputeAuthTag_no_panic:
  assumes "ComputeAuthTag L key data = Inl e"
  shows "\<not> panicked e"
  using assms by (auto simp: ComputeAuthTag_def split: if_splits)

lemma VerifyAuthTag_no_panic:
  assumes "VerifyAuthTag L key data tag = Inl e"
  shows "\<not> panicked e"
  using assms ComputeAuthTag_no_panic [of L key data]
  by (auto simp: VerifyAuthTag_def split: if_splits sum.splits)

lemma AESCTRDecrypt_no_panic:
  assumes "AESCTRDecrypt L key nonce ct = Inl e"
  shows "\<not> panicked e"
  using assms by (auto simp: AESCTRDecrypt_def Let_def split: if_splits)

lemma tryDecrypt_no_panic:
  assumes "6 \<le> length (RawPacket parsed)" and "tryDecrypt L key parsed tc = Inl e"
  shows "\<not> panicked e"
  using assms FullEncryptionKeyDerivation_no_panic [of L key tc "ucast (SequenceNumber parsed)"]
    FullNonceDerivation_no_panic [of L key tc "ucast (SequenceNumber parsed)"]
    ComputeAuthTag_no_panic VerifyAuthTag_no_panic AESCTRDecrypt_no_panic
  by (auto simp: tryDecrypt_def Let_def AuthTagOffset_def HeaderSize_def ReservedSize_def
        split: if_splits sum.splits)


section \<open>The engine at concrete packets\<close>

subsection \<open>Keys, nonces, tags and streams of the packets\<close>

lemmas kdf_defs =
  FullEncryptionKeyDerivation_def FullNonceDerivation_def
  DeriveEncryptionKeyIntermediate_def DeriveEncryptionKey_def DeriveNonceKey_def DeriveNonce_def
  DeriveKey_def FormatUint.simps SP800108CounterKDF_def KDF_loop.simps
  BigEndian_PutUint32_def bytes_of_string_def demo_lib_def mac_Size_def
  int64_def maxAlloc_def signed_divide_int_def

lemmas try_defs =
  DecryptWithKnownCounter_def tryDecrypt_def ParsePacket_def consts_defs BigEndian_Uint16_def
  VerifyAuthTag_def ConstantTimeCompare_def ConstantTimeByteEq_def demo_capture_def

lemma replicate_4: "replicate 4 x = [x, x, x, x]"
  by (simp add: numeral_eq_Suc)

lemmas stream_defs =
  AESCTRDecrypt_def AESCTREncrypt_def consts_defs XORKeyStream_def demo_defs upt_rec replicate_4

lemma length_demo_key16: "length demo_key16 = 16"
  by (simp add: demo_key16_def)

lemma ek16_20000: "FullEncryptionKeyDerivation demo_lib demo_key16 20000 75
  = Inr [57, 95, 133, 171, 209, 247, 29, 67, 105, 143, 181, 219, 1, 39, 77, 115]"
  apply (simp add: kdf_defs demo_key16_def)
  apply (simp add: demo_defs)
  done

lemma ek16_20001: "FullEncryptionKeyDerivation demo_lib demo_key16 20001 75
  = Inr [5, 179, 97, 15, 189, 107, 25, 199, 117, 35, 209, 127, 45, 219, 137, 55]"
  apply (simp add: kdf_defs demo_key16_def)
  apply (simp add: demo_defs)
  done

lemma nonce16_20001: "FullNonceDerivation demo_lib demo_key16 20001 75
  = Inr [24, 40, 56, 72, 88, 104, 120, 136, 152, 168, 184, 200]"
  apply (simp add: kdf_defs demo_key16_def)
  apply (simp add: demo_defs)
  done

lemma tag16_20000: "ComputeAuthTag demo_lib
    [57, 95, 133, 171, 209, 247, 29, 67, 105, 143, 181, 219, 1, 39, 77, 115] [0, 75, 0, 0, 0, 0]
  = Inr [214, 186, 158, 130]"
  by (simp add: ComputeAuthTag_def AuthTagSize_def demo_defs)

lemma tag16_20001: "ComputeAuthTag demo_lib
    [5, 179, 97, 15, 189, 107, 25, 199, 117, 35, 209, 127, 45, 219, 137, 55] [0, 75, 0, 0, 0, 0]
  = Inr [89, 63, 37, 11]"
  by (simp add: ComputeAuthTag_def AuthTagSize_def demo_defs)

lemma stream16_20001: "AESCTRDecrypt demo_lib
    [5, 179, 97, 15, 189, 107, 25, 199, 117, 35, 209, 127, 45, 219, 137, 55]
    [24, 40, 56, 72, 88, 104, 120, 136, 152, 168, 184, 200]
    [162, 182, 165, 141, 137, 138, 148]
  = Inr [112, 97, 121, 108, 111, 97, 100]"
  by (simp add: stream_defs)



lemma known16_20000:
  "DecryptWithKnownCounter demo_lib demo_key16 (demo_capture demo_packet16 t) 20000
     = Inl ErrAuthenticationFail"
  by (simp add: try_defs length_demo_key16 demo_packet16_def ek16_20000 tag16_20000)

lemma known16_20001:
  "DecryptWithKnownCounter demo_lib demo_key16 (demo_capture demo_packet16 t) 20001
     = Inr \<lparr>Payload = [112, 97, 121, 108, 111, 97, 100], TimeCounter = 20001, SeqCounter = 75\<rparr>"
  by (simp add: try_defs length_demo_key16 demo_packet16_def ek16_20001 tag16_20001
        nonce16_20001 stream16_20001)

lemma ek16_epoch: "FullEncryptionKeyDerivation demo_lib demo_key16 0 0
  = Inr [55, 177, 43, 165, 31, 153, 19, 141, 7, 129, 251, 117, 239, 105, 227, 93]"
  apply (simp add: kdf_defs demo_key16_def)
  apply (simp add: demo_defs)
  done

lemma nonce16_epoch: "FullNonceDerivation demo_lib demo_key16 0 0
  = Inr [101, 83, 65, 47, 29, 11, 249, 231, 213, 195, 177, 159]"
  apply (simp add: kdf_defs demo_key16_def)
  apply (simp add: demo_defs)
  done

lemma tag16_epoch: "ComputeAuthTag demo_lib
    [55, 177, 43, 165, 31, 153, 19, 141, 7, 129, 251, 117, 239, 105, 227, 93] [0, 0, 0, 0, 0, 0]
  = Inr [79, 217, 99, 237]"
  by (simp add: ComputeAuthTag_def AuthTagSize_def demo_defs)

lemma stream16_epoch: "AESCTRDecrypt demo_lib
    [55, 177, 43, 165, 31, 153, 19, 141, 7, 129, 251, 117, 239, 105, 227, 93]
    [101, 83, 65, 47, 29, 11, 249, 231, 213, 195, 177, 159] [1, 2, 3]
  = Inr [95, 97, 107]"
  by (simp add: stream_defs)

lemma built16_epoch: "BuildPacket demo_lib demo_key16 0 0 [1, 2, 3] = Inr demo_packet_epoch"
  by (simp add: BuildPacket_def ek16_epoch nonce16_epoch AESCTREncrypt_def
        stream16_epoch packet_header_def tag16_epoch demo_packet_epoch_def)

lemma ek16_far: "FullEncryptionKeyDerivation demo_lib demo_key16 2147483648 75
  = Inr [106, 6, 162, 62, 218, 118, 18, 174, 74, 230, 130, 30, 186, 86, 242, 142]"
  apply (simp add: kdf_defs demo_key16_def)
  apply (simp add: demo_defs)
  done

lemma nonce16_far: "FullNonceDerivation demo_lib demo_key16 2147483648 75
  = Inr [8, 184, 104, 24, 200, 120, 40, 216, 136, 56, 232, 152]"
  apply (simp add: kdf_defs demo_key16_def)
  apply (simp add: demo_defs)
  done

lemma tag16_far: "ComputeAuthTag demo_lib
    [106, 6, 162, 62, 218, 118, 18, 174, 74, 230, 130, 30, 186, 86, 242, 142] [0, 75, 0, 0, 0, 0]
  = Inr [197, 243, 33, 79]"
  by (simp add: ComputeAuthTag_def AuthTagSize_def demo_defs)

lemma stream16_far: "AESCTRDecrypt demo_lib
    [106, 6, 162, 62, 218, 118, 18, 174, 74, 230, 130, 30, 186, 86, 242, 142]
    [8, 184, 104, 24, 200, 120, 40, 216, 136, 56, 232, 152] []
  = Inr []"
  by (simp add: AESCTRDecrypt_def consts_defs XORKeyStream_def demo_lib_def)

lemma built16_far: "BuildPacket demo_lib demo_key16 2147483648 75 [] = Inr demo_packet_far"
  by (simp add: BuildPacket_def ek16_far nonce16_far AESCTREncrypt_def
        stream16_far packet_header_def tag16_far demo_packet_far_def)



lemma word_between:
  fixes c :: "32 word"
  assumes "a \<le> uint c" and "uint c < a + 1"
  shows "c = word_of_int a"
proof -
  from assms have "uint c = a"
    by linarith
  then show ?thesis
    by (metis word_of_int_uint)
qed

lemmas option_defs =
  resolve_options_def demo_capture_def CounterToTime_def TimeToCounter_def
  IsZero_def WithSearchWindow_def WithExpectedTime_def consts_defs signed_divide_int_def

lemma options_20001_1:
  "TimeToCounter (ExpectedTime (resolve_options now (demo_capture p (CounterToTime 20001))
      [WithSearchWindow 1])) = 20001"
  "SearchWindowDays (resolve_options now (demo_capture p (CounterToTime 20001))
      [WithSearchWindow 1]) = 1"
  by (simp_all add: option_defs)

lemma options_20000_0:
  "TimeToCounter (ExpectedTime (resolve_options now (demo_capture p (CounterToTime 20000))
      [WithSearchWindow 0])) = 20000"
  "SearchWindowDays (resolve_options now (demo_capture p (CounterToTime 20000))
      [WithSearchWindow 0]) = 0"
  by (simp_all add: option_defs)


lemma options_day1_default:
  "TimeToCounter (ExpectedTime (resolve_options now (demo_capture p (CounterToTime 1)) [])) = 1"
  "SearchWindowDays (resolve_options now (demo_capture p (CounterToTime 1)) []) = 2"
  by (simp_all add: option_defs)

lemma options_epoch_far:
  "TimeToCounter (ExpectedTime (resolve_options now (demo_capture p (CounterToTime 0))
      [WithSearchWindow 2147483648])) = 0"
  "SearchWindowDays (resolve_options now (demo_capture p (CounterToTime 0))
      [WithSearchWindow 2147483648]) = 2147483648"
  by (simp_all add: option_defs)


















subsection \<open>The searches at the packets\<close>

lemma only_20000:
  fixes c :: "32 word"
  assumes "uint (20001 :: 32 word) - sint (1 :: 64 word) \<le> uint c" and "c < 20001"
  shows "c = 20000"
proof -
  from assms(2) have "uint c < 20001"
    by (simp add: word_less_def)
  with assms(1) have "c = word_of_int 20000"
    by (intro word_between) simp_all
  then show ?thesis
    by simp
qed

lemma only_20000_window:
  fixes c :: "32 word"
  assumes "uint (20000 :: 32 word) - sint (0 :: 64 word) \<le> uint c"
    and "uint c \<le> uint (20000 :: 32 word) + sint (0 :: 64 word)"
  shows "c = 20000"
proof -
  from assms have "c = word_of_int 20000"
    by (intro word_between) simp_all
  then show ?thesis
    by simp
qed


lemma demo_epoch_facts:
  "10 \<le> length (pkt_Payload (demo_capture demo_packet_epoch t))"
  "DecryptWithKnownCounter demo_lib demo_key16 (demo_capture demo_packet_epoch t) 0
     = Inr \<lparr>Payload = [1, 2, 3], TimeCounter = 0, SeqCounter = 0\<rparr>"
proof -
  have key: "length demo_key16 = 16 \<or> length demo_key16 = 32"
    by (simp add: length_demo_key16)
  have built: "BuildPacket demo_lib demo_key16 0 0 [1, 2, 3]
     = Inr (pkt_Payload (demo_capture demo_packet_epoch t))"
    by (simp add: built16_epoch demo_capture_def)
  show "10 \<le> length (pkt_Payload (demo_capture demo_packet_epoch t))"
    by (simp add: demo_capture_def demo_packet_epoch_def)
  show "DecryptWithKnownCounter demo_lib demo_key16 (demo_capture demo_packet_epoch t) 0
     = Inr \<lparr>Payload = [1, 2, 3], TimeCounter = 0, SeqCounter = 0\<rparr>"
    using DecryptWithKnownCounter_built(2) [OF demo_lib_ok key _ built] by simp
qed





lemma length_demo_packet16:
  "10 \<le> length (pkt_Payload (demo_capture demo_packet16 t))"
  by (simp add: demo_capture_def demo_packet16_def)

lemma Decrypt_demo16_found:
  "Decrypt demo_lib now demo_key16 (demo_capture demo_packet16 (CounterToTime 20001))
      [WithSearchWindow 1]
     = Some (Inr \<lparr>Payload = [112, 97, 121, 108, 111, 97, 100], TimeCounter = 20001,
                   SeqCounter = 75\<rparr>)"
proof -
  let ?pkt = "demo_capture demo_packet16 (CounterToTime 20001)"
  have key: "length demo_key16 = 16 \<or> length demo_key16 = 32"
    by (simp add: length_demo_key16)
  have nowrap: "0 \<le> sint (1 :: 64 word)" "sint (1 :: 64 word) \<le> uint (20001 :: 32 word)"
      "uint (20001 :: 32 word) + sint (1 :: 64 word) < 2 ^ 32"
    by simp_all
  have window: "uint (20001 :: 32 word) - sint (1 :: 64 word) \<le> uint (20001 :: 32 word)"
      "uint (20001 :: 32 word) \<le> uint (20001 :: 32 word) + sint (1 :: 64 word)"
    by simp_all
  have earlier: "\<forall>c. uint (20001 :: 32 word) - sint (1 :: 64 word) \<le> uint c \<and> c < 20001 \<longrightarrow>
      (\<exists>e. DecryptWithKnownCounter demo_lib demo_key16 ?pkt c = Inl e)"
    using only_20000 known16_20000 by blast
  show ?thesis
    by (rule Decrypt_first_known [OF key length_demo_packet16 options_20001_1 nowrap window
          known16_20001 earlier])
qed

lemma Decrypt_demo16_missed:
  "Decrypt demo_lib now demo_key16 (demo_capture demo_packet16 (CounterToTime 20000))
      [WithSearchWindow 0] = Some (Inl ErrDecryptionFailed)"
proof -
  let ?pkt = "demo_capture demo_packet16 (CounterToTime 20000)"
  have key: "length demo_key16 = 16 \<or> length demo_key16 = 32"
    by (simp add: length_demo_key16)
  have nowrap: "0 \<le> sint (0 :: 64 word)" "sint (0 :: 64 word) \<le> uint (20000 :: 32 word)"
      "uint (20000 :: 32 word) + sint (0 :: 64 word) < 2 ^ 32 - 1"
    by simp_all
  have none: "\<forall>c. uint (20000 :: 32 word) - sint (0 :: 64 word) \<le> uint c \<and>
        uint c \<le> uint (20000 :: 32 word) + sint (0 :: 64 word) \<longrightarrow>
      (\<exists>e. DecryptWithKnownCounter demo_lib demo_key16 ?pkt c = Inl e)"
    using only_20000_window known16_20000 by blast
  show ?thesis
    by (rule Decrypt_none_known [OF key length_demo_packet16 options_20000_0 nowrap none])
qed

text \<open>
  Both searches at \<open>demo_packet16\<close>: counter 20001 found with window 1 around it, and
  nothing found at 20000 with window 0.
\<close>

theorem FindTimeCounter_agrees_with_Decrypt_witness:
  "lib_ok demo_lib \<and>
   Decrypt demo_lib demo_now demo_key16 (demo_capture demo_packet16 (CounterToTime 20001))
      [WithSearchWindow 1]
     = Some (Inr \<lparr>Payload = [112, 97, 121, 108, 111, 97, 100], TimeCounter = 20001,
                   SeqCounter = 75\<rparr>) \<and>
   FindTimeCounter demo_lib demo_now demo_key16 (demo_capture demo_packet16 (CounterToTime 20001))
      [WithSearchWindow 1] = Some (Inr 20001) \<and>
   Decrypt demo_lib demo_now demo_key16 (demo_capture demo_packet16 (CounterToTime 20000))
      [WithSearchWindow 0] = Some (Inl ErrDecryptionFailed) \<and>
   FindTimeCounter demo_lib demo_now demo_key16 (demo_capture demo_packet16 (CounterToTime 20000))
      [WithSearchWindow 0] = Some (Inl ErrDecryptionFailed)"
  using FindTimeCounter_agrees_with_Decrypt [OF demo_lib_ok, of demo_now demo_key16
      "demo_capture demo_packet16 (CounterToTime 20001)" "[WithSearchWindow 1]"]
    FindTimeCounter_agrees_with_Decrypt [OF demo_lib_ok, of demo_now demo_key16
      "demo_capture demo_packet16 (CounterToTime 20000)" "[WithSearchWindow 0]"]
    demo_lib_ok
  by (simp add: Decrypt_demo16_found Decrypt_demo16_missed)






text \<open>
  Base counter 1 with the default window 2: the window is empty and both searches fail.
\<close>

theorem search_window_underflow_witness:
  "(length demo_key16 = 16 \<or> length demo_key16 = 32) \<and>
   10 \<le> length (pkt_Payload (demo_capture demo_packet_epoch (CounterToTime 1))) \<and>
   TimeToCounter (ExpectedTime (resolve_options demo_now
      (demo_capture demo_packet_epoch (CounterToTime 1)) [])) = 1 \<and>
   SearchWindowDays (resolve_options demo_now
      (demo_capture demo_packet_epoch (CounterToTime 1)) []) = 2 \<and>
   uint (1 :: 32 word) < sint (2 :: 64 word) \<and> sint (2 :: 64 word) < 2 ^ 31 \<and>
   uint ((1 :: 32 word) - ucast (2 :: 64 word)) = 4294967295 \<and>
   uint ((1 :: 32 word) + ucast (2 :: 64 word)) = 3 \<and>
   \<not> (1 :: 32 word) - ucast (2 :: 64 word) \<le> 1 + ucast (2 :: 64 word) \<and>
   Decrypt demo_lib demo_now demo_key16 (demo_capture demo_packet_epoch (CounterToTime 1)) []
     = Some (Inl ErrDecryptionFailed) \<and>
   FindTimeCounter demo_lib demo_now demo_key16
      (demo_capture demo_packet_epoch (CounterToTime 1)) []
     = Some (Inl ErrDecryptionFailed)"
proof -
  have key: "length demo_key16 = 16 \<or> length demo_key16 = 32"
    by (simp add: length_demo_key16)
  have small: "uint (1 :: 32 word) < sint (2 :: 64 word)" "sint (2 :: 64 word) < 2 ^ 31"
    by simp_all
  note opts = options_day1_default [of demo_now demo_packet_epoch]
  note u = search_window_underflow [OF key demo_epoch_facts(1) opts small, where L = demo_lib]
  have ends: "uint ((1 :: 32 word) - ucast (2 :: 64 word)) = 4294967295"
      "uint ((1 :: 32 word) + ucast (2 :: 64 word)) = 3"
    using u by simp_all
  from u have rest: "\<not> (1 :: 32 word) - ucast (2 :: 64 word) \<le> 1 + ucast (2 :: 64 word)"
      "Decrypt demo_lib demo_now demo_key16 (demo_capture demo_packet_epoch (CounterToTime 1)) []
         = Some (Inl ErrDecryptionFailed)"
      "FindTimeCounter demo_lib demo_now demo_key16
          (demo_capture demo_packet_epoch (CounterToTime 1)) []
         = Some (Inl ErrDecryptionFailed)"
    by blast+
  show ?thesis
    by (intro conjI key demo_epoch_facts(1) opts small ends rest)
qed

lemma far_window:
  "(0 :: 32 word) - ucast (2147483648 :: 64 word) = 2147483648"
  "(0 :: 32 word) + ucast (2147483648 :: 64 word) = 2147483648"
proof -
  have "(ucast (2147483648 :: 64 word) :: 32 word) = 2147483648"
    by simp
  moreover have "- (2147483648 :: 32 word) = 2147483648"
    by simp
  ultimately show "(0 :: 32 word) - ucast (2147483648 :: 64 word) = 2147483648"
    "(0 :: 32 word) + ucast (2147483648 :: 64 word) = 2147483648"
    by simp_all
qed

lemma demo_far_facts:
  "10 \<le> length (pkt_Payload (demo_capture demo_packet_far t))"
  "DecryptWithKnownCounter demo_lib demo_key16 (demo_capture demo_packet_far t) 2147483648
     = Inr \<lparr>Payload = [], TimeCounter = 2147483648, SeqCounter = 75\<rparr>"
proof -
  have key: "length demo_key16 = 16 \<or> length demo_key16 = 32"
    by (simp add: length_demo_key16)
  have built: "BuildPacket demo_lib demo_key16 2147483648 75 []
     = Inr (pkt_Payload (demo_capture demo_packet_far t))"
    by (simp add: built16_far demo_capture_def)
  show "10 \<le> length (pkt_Payload (demo_capture demo_packet_far t))"
    by (simp add: demo_capture_def demo_packet_far_def)
  show "DecryptWithKnownCounter demo_lib demo_key16 (demo_capture demo_packet_far t) 2147483648
     = Inr \<lparr>Payload = [], TimeCounter = 2147483648, SeqCounter = 75\<rparr>"
    using DecryptWithKnownCounter_built(2) [OF demo_lib_ok key _ built] by simp
qed

text \<open>
  Base counter 0 with window \<open>2^31\<close>: the base counter is smaller than the window, but
  \<^verbatim>\<open>uint32(W)\<close> is \<open>2^31\<close>, both ends of the window are \<open>2^31\<close>, the loop runs one round,
  and a packet of that counter is found and decrypted.
\<close>

theorem search_window_underflow_counterexample:
  "(length demo_key16 = 16 \<or> length demo_key16 = 32) \<and>
   10 \<le> length (pkt_Payload (demo_capture demo_packet_far (CounterToTime 0))) \<and>
   TimeToCounter (ExpectedTime (resolve_options demo_now
      (demo_capture demo_packet_far (CounterToTime 0)) [WithSearchWindow 2147483648])) = 0 \<and>
   SearchWindowDays (resolve_options demo_now
      (demo_capture demo_packet_far (CounterToTime 0)) [WithSearchWindow 2147483648])
     = 2147483648 \<and>
   uint (0 :: 32 word) < sint (2147483648 :: 64 word) \<and>
   (0 :: 32 word) - ucast (2147483648 :: 64 word) \<le> 0 + ucast (2147483648 :: 64 word) \<and>
   Decrypt demo_lib demo_now demo_key16 (demo_capture demo_packet_far (CounterToTime 0))
      [WithSearchWindow 2147483648]
     = Some (Inr \<lparr>Payload = [], TimeCounter = 2147483648, SeqCounter = 75\<rparr>) \<and>
   FindTimeCounter demo_lib demo_now demo_key16 (demo_capture demo_packet_far (CounterToTime 0))
      [WithSearchWindow 2147483648] = Some (Inr 2147483648)"
proof -
  let ?pkt = "demo_capture demo_packet_far (CounterToTime 0)"
  let ?opts = "[WithSearchWindow 2147483648]"
  have key: "length demo_key16 = 16 \<or> length demo_key16 = 32"
    by (simp add: length_demo_key16)
  note len = demo_far_facts(1) [of "CounterToTime 0"]
  note opts = options_epoch_far [of demo_now demo_packet_far]
  obtain parsed where parsed: "ParsePacket (pkt_Payload ?pkt) = Inr parsed"
    using ParsePacket_ok [OF len] by blast
  have big: "uint (0 :: 32 word) < sint (2147483648 :: 64 word)"
    by simp
  have window: "(0 :: 32 word) - ucast (2147483648 :: 64 word) \<le> 0 + ucast (2147483648 :: 64 word)"
    by (simp only: far_window order_refl)
  have cand: "tryDecrypt demo_lib demo_key16 parsed 2147483648
      = Inr \<lparr>Payload = [], TimeCounter = 2147483648, SeqCounter = 75\<rparr>"
    using demo_far_facts(2) [of "CounterToTime 0"]
    by (simp add: DecryptWithKnownCounter_unfold [OF key parsed])
  have "Decrypt_loop demo_lib demo_key16 parsed 2147483648 2147483648
      = Some (Inr \<lparr>Payload = [], TimeCounter = 2147483648, SeqCounter = 75\<rparr>)"
    by (subst Decrypt_loop.simps) (simp add: cand)
  then have dec: "Decrypt demo_lib demo_now demo_key16 ?pkt ?opts
      = Some (Inr \<lparr>Payload = [], TimeCounter = 2147483648, SeqCounter = 75\<rparr>)"
    by (simp only: Decrypt_unfold [OF key parsed opts] far_window)
  have find: "FindTimeCounter demo_lib demo_now demo_key16 ?pkt ?opts = Some (Inr 2147483648)"
    by (simp add: searches_agree [OF demo_lib_ok] dec)
  show ?thesis
    by (intro conjI key len opts big window dec find)
qed

end
